theory Spec2Isabelle
  imports Complex_Main
begin

section \<open>The resource pool of \<^verbatim>\<open>src/src/proxy/ProxyPatternPool.py\<close>\<close>

text \<open>
  The embedding follows class \<^verbatim>\<open>Pool\<close> method by method. One call of a method is one
  function from the pool state to a result and the new state; the re-entrant lock of the
  source makes the bookkeeping of a call atomic, which is what a function application is.
  An exception is a value \<open>Inl e\<close>, and the state that comes with it is the state the Python
  object is left in when the exception leaves the method.

  Time stamps are Python floats read from the clock; the model takes the clock reading of a
  call as the parameter \<open>now\<close> and compares and subtracts it as a real number.
\<close>

subsection \<open>Exceptions, hooks, log records\<close>

datatype error =
    TimeOut           \<comment> \<open>\<^verbatim>\<open>TimeOut\<close>, raised by \<^verbatim>\<open>get\<close>\<close>
  | PoolException     \<comment> \<open>\<^verbatim>\<open>PoolException("Pool is shutting down")\<close>\<close>
  | FunError          \<comment> \<open>whatever the factory \<^verbatim>\<open>fun\<close> raised\<close>
  | HookError         \<comment> \<open>whatever a hook raised, where nothing catches it\<close>
  | BodyError         \<comment> \<open>whatever the body of a \<^verbatim>\<open>with\<close> block raised\<close>
  | KeyError
  | ValueError        \<comment> \<open>\<^verbatim>\<open>BoundedSemaphore.release\<close> above the initial value\<close>
  | AssertionError
  | ZeroDivisionError
  | AttributeError
  | Blocked           \<comment> \<open>not an exception: the call waits on the semaphore and never returns\<close>

text \<open>What a call of a caller-supplied function does: it raises, or it returns a value.\<close>

datatype 'r outcome = Raises | Returns 'r

text \<open>The records the module writes to its logger at level warning or error.\<close>

datatype log_event =
    Opener_exception        \<comment> \<open>\<^verbatim>\<open>exception in opener\<close>\<close>
  | Getter_exception        \<comment> \<open>\<^verbatim>\<open>exception in getter\<close>\<close>
  | Retter_exception        \<comment> \<open>\<^verbatim>\<open>exception in retter\<close>\<close>
  | Closer_exception        \<comment> \<open>\<^verbatim>\<open>exception in closer\<close>\<close>
  | Health_check_error      \<comment> \<open>\<^verbatim>\<open>health check error\<close>\<close>
  | Bad_health              \<comment> \<open>\<^verbatim>\<open>bad health\<close>\<close>
  | New_object_failed       \<comment> \<open>\<^verbatim>\<open>new object failed\<close>, in \<^verbatim>\<open>_fill\<close>\<close>
  | Object_creation_failed  \<comment> \<open>\<^verbatim>\<open>object creation failed\<close>, in \<^verbatim>\<open>get\<close>\<close>
  | Long_running            \<comment> \<open>\<^verbatim>\<open>long running objects\<close>\<close>
  | Housekeeper_round_error \<comment> \<open>\<^verbatim>\<open>housekeeper round error\<close>\<close>
  | Deleting_in_use         \<comment> \<open>\<^verbatim>\<open>deleting in-use objects\<close>\<close>

subsection \<open>The data of a pool\<close>

text \<open>\<^verbatim>\<open>Pool.UseInfo\<close>.\<close>

record useinfo =
  uses :: int
  last_get :: real
  last_ret :: real

text \<open>
  \<^verbatim>\<open>threading.BoundedSemaphore\<close>: a counter and the value it started with. A release that
  would lift the counter above the initial value raises \<^verbatim>\<open>ValueError\<close>.
\<close>

record bsem =
  sem_value :: int
  initial_value :: int

definition sem_try_acquire :: "bsem \<Rightarrow> bsem option" where
  \<comment> \<open>\<^verbatim>\<open>acquire(timeout=0.0)\<close>: \<open>None\<close> is the answer \<^verbatim>\<open>False\<close>\<close>
  "sem_try_acquire b =
     (if 0 < sem_value b then Some (b\<lparr>sem_value := sem_value b - 1\<rparr>) else None)"

definition sem_release :: "bsem \<Rightarrow> error + bsem" where
  "sem_release b =
     (if initial_value b < sem_value b + 1 then Inl ValueError
      else Inr (b\<lparr>sem_value := sem_value b + 1\<rparr>))"

text \<open>
  The arguments of \<^verbatim>\<open>Pool.__init__\<close>. The attributes that keep them are never assigned
  again, \<^verbatim>\<open>_min_size\<close> apart, which lives in the state below.

  The factory is not a pure function of its argument (it opens connections), so its outcome
  is indexed by the attempt as well: \<open>fun_hook P k n\<close> is what the \<open>k\<close>-th creation attempt of
  the pool (the value of \<^verbatim>\<open>_ncreating\<close> at the call) does when called as
  \<^verbatim>\<open>fun(n)\<close>. The other hooks are functions of the object.
\<close>

record 'a params =
  fun_hook :: "int \<Rightarrow> int \<Rightarrow> 'a outcome"
  max_size :: int
  min_size :: int
  timeout :: "real option"
  max_use :: int
  max_avail_delay :: real
  max_using_delay :: real
  max_using_delay_kill :: real
  health_freq :: int
  opener :: "('a \<Rightarrow> unit outcome) option"
  getter :: "('a \<Rightarrow> unit outcome) option"
  retter :: "('a \<Rightarrow> unit outcome) option"
  closer :: "('a \<Rightarrow> unit outcome) option"
  health :: "('a \<Rightarrow> bool outcome) option"
  stats :: "('a \<Rightarrow> string outcome) option"
  tracer :: "('a \<Rightarrow> string outcome) option"

definition max_using_delay_warn :: "'a params \<Rightarrow> real" where
  \<comment> \<open>\<^verbatim>\<open>max_using_delay or max_using_delay_kill\<close>\<close>
  "max_using_delay_warn P =
     (if max_using_delay P \<noteq> 0 then max_using_delay P else max_using_delay_kill P)"

text \<open>
  The mutable attributes of a pool. The three Python sets are lists without repetition, in
  the order the source iterates over them; \<open>using_objs\<close> is \<^verbatim>\<open>_using\<close>, \<open>uses_tab\<close> is the
  dictionary \<^verbatim>\<open>_uses\<close>, \<open>cur_min_size\<close> is \<^verbatim>\<open>_min_size\<close>, \<open>shutdown_flag\<close> is
  \<^verbatim>\<open>_shutdown\<close>, and \<open>logged\<close> collects what went to the logger, latest first.
\<close>

record 'a pool =
  nobjs :: int
  nuses :: int
  ncreating :: int
  ncreated :: int
  nhealth :: int
  bad_health :: int
  nborrows :: int
  nreturns :: int
  nkilled :: int
  nrecycled :: int
  nwornout :: int
  ndestroys :: int
  hc_rounds :: int
  hc_errors :: int
  hk_rounds :: int
  hk_errors :: int
  shutdown_flag :: bool
  cur_min_size :: int
  avail :: "'a list"
  using_objs :: "'a list"
  todel :: "'a list"
  uses_tab :: "'a \<Rightarrow> useinfo option"
  sem :: "bsem option"
  logged :: "log_event list"

definition log_add :: "log_event \<Rightarrow> 'a pool \<Rightarrow> 'a pool" where
  "log_add ev s = s\<lparr>logged := ev # logged s\<rparr>"

definition set_add :: "'a \<Rightarrow> 'a list \<Rightarrow> 'a list" where
  \<comment> \<open>\<^verbatim>\<open>set.add\<close>\<close>
  "set_add x xs = (if x \<in> set xs then xs else xs @ [x])"

definition pool_sem_release :: "'a pool \<Rightarrow> error + 'a pool" where
  \<comment> \<open>\<^verbatim>\<open>if self._sem: self._sem.release()\<close>\<close>
  "pool_sem_release s =
     (case sem s of
        None \<Rightarrow> Inr s
      | Some b \<Rightarrow>
          (case sem_release b of
             Inl e \<Rightarrow> Inl e
           | Inr b' \<Rightarrow> Inr (s\<lparr>sem := Some b'\<rparr>)))"

text \<open>
  \<^verbatim>\<open>try: hook(obj) except Exception: log.error(...)\<close>, for a hook that may be absent.
\<close>

definition guarded_hook ::
  "('a \<Rightarrow> unit outcome) option \<Rightarrow> log_event \<Rightarrow> 'a \<Rightarrow> 'a pool \<Rightarrow> 'a pool" where
  "guarded_hook h ev obj s =
     (case h of
        None \<Rightarrow> s
      | Some f \<Rightarrow> (case f obj of Raises \<Rightarrow> log_add ev s | Returns _ \<Rightarrow> s))"

subsection \<open>Creating and removing objects\<close>

text \<open>\<^verbatim>\<open>Pool._create\<close>.\<close>

definition pool_create :: "'a params \<Rightarrow> real \<Rightarrow> 'a pool \<Rightarrow> (error + 'a) \<times> 'a pool" where
  "pool_create P now s =
     (let s1 = s\<lparr>ncreating := ncreating s + 1\<rparr> in
      case fun_hook P (ncreating s1) (ncreated s1) of
        Raises \<Rightarrow> (Inl FunError, s1)
      | Returns obj \<Rightarrow>
          (Inr obj,
           s1\<lparr>ncreated := ncreated s1 + 1,
              nobjs := nobjs s1 + 1,
              uses_tab := (uses_tab s1)(obj \<mapsto> \<lparr>uses = 0, last_get = now, last_ret = now\<rparr>)\<rparr>))"

text \<open>\<^verbatim>\<open>Pool._new\<close>.\<close>

definition pool_new :: "'a params \<Rightarrow> real \<Rightarrow> 'a pool \<Rightarrow> (error + 'a) \<times> 'a pool" where
  "pool_new P now s =
     (case pool_create P now s of
        (Inl e, s1) \<Rightarrow> (Inl e, s1)
      | (Inr obj, s1) \<Rightarrow>
          (let s2 = guarded_hook (opener P) Opener_exception obj s1
           in (Inr obj, s2\<lparr>avail := set_add obj (avail s2)\<rparr>)))"

text \<open>\<^verbatim>\<open>Pool._out\<close>.\<close>

definition pool_out :: "'a \<Rightarrow> 'a pool \<Rightarrow> 'a pool" where
  "pool_out obj s =
     (let seen = (uses_tab s obj \<noteq> None \<or> obj \<in> set (avail s) \<or> obj \<in> set (using_objs s))
      in s\<lparr>uses_tab := (uses_tab s)(obj := None),
            avail := removeAll obj (avail s),
            using_objs := removeAll obj (using_objs s),
            nobjs := (if seen then nobjs s - 1 else nobjs s)\<rparr>)"

text \<open>
  The pair of statements \<^verbatim>\<open>self._out(obj); self._todel.add(obj)\<close>, which the source
  writes wherever it schedules an object for destruction.
\<close>

definition to_del :: "'a \<Rightarrow> 'a pool \<Rightarrow> 'a pool" where
  "to_del obj s = (let s1 = pool_out obj s in s1\<lparr>todel := set_add obj (todel s1)\<rparr>)"

text \<open>\<^verbatim>\<open>Pool._destroy\<close>.\<close>

definition pool_destroy :: "'a params \<Rightarrow> 'a \<Rightarrow> 'a pool \<Rightarrow> 'a pool" where
  "pool_destroy P obj s = guarded_hook (closer P) Closer_exception obj s"

text \<open>\<^verbatim>\<open>Pool._del\<close>.\<close>

definition pool_del :: "'a params \<Rightarrow> 'a \<Rightarrow> 'a pool \<Rightarrow> 'a pool" where
  "pool_del P obj s = pool_destroy P obj (pool_out obj s)"

text \<open>\<^verbatim>\<open>Pool._empty\<close>.\<close>

definition pool_empty :: "'a params \<Rightarrow> 'a pool \<Rightarrow> 'a pool" where
  "pool_empty P s =
     (if todel s \<noteq> [] then
        (let destroys = todel s;
             s1 = s\<lparr>todel := [], ndestroys := ndestroys s + int (length destroys)\<rparr>
         in fold (pool_destroy P) destroys s1)
      else s)"

subsection \<open>Borrowing for the health check\<close>

text \<open>\<^verbatim>\<open>Pool._borrow\<close>; the answer \<open>False\<close> is the source's \<^verbatim>\<open>None\<close>.\<close>

definition pool_borrow :: "'a \<Rightarrow> 'a pool \<Rightarrow> (error + bool) \<times> 'a pool" where
  "pool_borrow obj s =
     (case (case sem s of
              None \<Rightarrow> Some s
            | Some b \<Rightarrow>
                (case sem_try_acquire b of
                   None \<Rightarrow> None
                 | Some b' \<Rightarrow> Some (s\<lparr>sem := Some b'\<rparr>))) of
        None \<Rightarrow> (Inr False, s)
      | Some s1 \<Rightarrow>
          if obj \<in> set (avail s1) then
            (Inr True,
             s1\<lparr>avail := removeAll obj (avail s1),
                using_objs := set_add obj (using_objs s1),
                nborrows := nborrows s1 + 1\<rparr>)
          else
            (case pool_sem_release s1 of
               Inl e \<Rightarrow> (Inl e, s1)
             | Inr s2 \<Rightarrow> (Inr False, s2)))"

text \<open>\<^verbatim>\<open>Pool._return\<close>.\<close>

definition pool_return :: "'a \<Rightarrow> 'a pool \<Rightarrow> (error + unit) \<times> 'a pool" where
  "pool_return obj s =
     (if obj \<notin> set (using_objs s) then (Inl AssertionError, s)
      else
        (let s1 = s\<lparr>using_objs := removeAll obj (using_objs s),
                    avail := set_add obj (avail s),
                    nreturns := nreturns s + 1\<rparr>
         in case pool_sem_release s1 of
              Inl e \<Rightarrow> (Inl e, s1)
            | Inr s2 \<Rightarrow> (Inr (), s2)))"

subsection \<open>Refilling\<close>

text \<open>
  The loop of \<^verbatim>\<open>Pool._fill\<close>, \<^verbatim>\<open>for _ in range(tocreate)\<close>: a token is taken without
  waiting, \<^verbatim>\<open>_new\<close> is tried, and the token is given back whether or not an object was
  created.
\<close>

fun fill_loop :: "'a params \<Rightarrow> real \<Rightarrow> nat \<Rightarrow> 'a pool \<Rightarrow> (error + unit) \<times> 'a pool" where
  "fill_loop P now 0 s = (Inr (), s)"
| "fill_loop P now (Suc n) s =
     (case (case sem s of
              None \<Rightarrow> Some s
            | Some b \<Rightarrow>
                (case sem_try_acquire b of
                   None \<Rightarrow> None
                 | Some b' \<Rightarrow> Some (s\<lparr>sem := Some b'\<rparr>))) of
        None \<Rightarrow> (Inr (), s)
      | Some s1 \<Rightarrow>
          (let s2 = (case pool_new P now s1 of
                       (Inl e, s') \<Rightarrow> log_add New_object_failed s'
                     | (Inr obj, s') \<Rightarrow> s')
           in case pool_sem_release s2 of
                Inl e \<Rightarrow> (Inl e, s2)
              | Inr s3 \<Rightarrow> fill_loop P now n s3))"

text \<open>\<^verbatim>\<open>Pool._fill\<close>.\<close>

definition pool_fill :: "'a params \<Rightarrow> real \<Rightarrow> 'a pool \<Rightarrow> (error + unit) \<times> 'a pool" where
  "pool_fill P now s =
     (if nobjs s < cur_min_size s
      then fill_loop P now (nat (cur_min_size s - nobjs s)) s
      else (Inr (), s))"

subsection \<open>Acquire and release\<close>

definition effective_timeout :: "'a params \<Rightarrow> real option \<Rightarrow> real option" where
  \<comment> \<open>\<^verbatim>\<open>timeout or self._timeout\<close>\<close>
  "effective_timeout P tmo =
     (case tmo of
        None \<Rightarrow> timeout P
      | Some t \<Rightarrow> if t \<noteq> 0 then Some t else timeout P)"

text \<open>
  \<^verbatim>\<open>self._sem.acquire(timeout=timeout or self._timeout)\<close> in \<^verbatim>\<open>get\<close>. No other thread runs
  during a call of the model, so a semaphore at zero stays at zero: the wait ends with the
  answer \<^verbatim>\<open>False\<close> when there is a timeout, and does not end when there is none.
\<close>

definition get_token :: "'a params \<Rightarrow> real option \<Rightarrow> 'a pool \<Rightarrow> error + 'a pool" where
  "get_token P tmo s =
     (case sem s of
        None \<Rightarrow> Inr s
      | Some b \<Rightarrow>
          (case sem_try_acquire b of
             Some b' \<Rightarrow> Inr (s\<lparr>sem := Some b'\<rparr>)
           | None \<Rightarrow>
               (case effective_timeout P tmo of
                  None \<Rightarrow> Inl Blocked
                | Some t \<Rightarrow> Inl TimeOut)))"

text \<open>
  The first statement under the lock in \<^verbatim>\<open>Pool.get\<close>: when no object is available one
  is made; a failure is logged, gives the token back and is raised again. The result is the
  exception that leaves \<^verbatim>\<open>get\<close>, if any.
\<close>

definition get_ensure :: "'a params \<Rightarrow> real \<Rightarrow> 'a pool \<Rightarrow> error option \<times> 'a pool" where
  "get_ensure P now s =
     (if avail s = [] then
        (case pool_new P now s of
           (Inl e, s1) \<Rightarrow>
             (let s2 = log_add Object_creation_failed s1
              in case pool_sem_release s2 of
                   Inl e' \<Rightarrow> (Some e', s2)
                 | Inr s3 \<Rightarrow> (Some e, s3))
         | (Inr obj, s1) \<Rightarrow> (None, s1))
      else (None, s))"

text \<open>
  The rest of the block under the lock: \<^verbatim>\<open>obj = self._avail.pop()\<close> and the bookkeeping
  of the use. \<^verbatim>\<open>set.pop\<close> removes an element of its choice; the model takes the choice as
  the index \<open>pick\<close> into the list of available objects.
\<close>

definition get_pop :: "real \<Rightarrow> nat \<Rightarrow> 'a pool \<Rightarrow> (error + 'a) \<times> 'a pool" where
  "get_pop now pick s =
     (if avail s = [] then (Inl KeyError, s)
      else
        (let obj = avail s ! (pick mod length (avail s));
             s1 = s\<lparr>avail := removeAll obj (avail s),
                     using_objs := set_add obj (using_objs s),
                     nuses := nuses s + 1\<rparr>
         in case uses_tab s1 obj of
              None \<Rightarrow> (Inl KeyError, s1)
            | Some u \<Rightarrow>
                (Inr obj,
                 s1\<lparr>uses_tab := (uses_tab s1)(obj \<mapsto> u\<lparr>uses := uses u + 1, last_get := now\<rparr>)\<rparr>)))"

text \<open>\<^verbatim>\<open>Pool.get\<close>.\<close>

definition pool_get ::
  "'a params \<Rightarrow> real \<Rightarrow> real option \<Rightarrow> nat \<Rightarrow> 'a pool \<Rightarrow> (error + 'a) \<times> 'a pool" where
  "pool_get P now tmo pick s =
     (if shutdown_flag s then (Inl PoolException, s)
      else
        case get_token P tmo s of
          Inl e \<Rightarrow> (Inl e, s)
        | Inr s1 \<Rightarrow>
            (case get_ensure P now s1 of
               (Some e, s2) \<Rightarrow> (Inl e, s2)
             | (None, s2) \<Rightarrow>
                 (case get_pop now pick s2 of
                    (Inl e, s3) \<Rightarrow> (Inl e, s3)
                  | (Inr obj, s3) \<Rightarrow>
                      (Inr obj, guarded_hook (getter P) Getter_exception obj s3))))"

text \<open>
  The \<^verbatim>\<open>if\<close> on \<^verbatim>\<open>max_use\<close> in \<^verbatim>\<open>Pool.ret\<close>, for an object that is in use: the object
  is scheduled for destruction when it has reached its number of uses, and goes back to the
  available objects otherwise.
\<close>

definition ret_move :: "'a params \<Rightarrow> real \<Rightarrow> 'a \<Rightarrow> 'a pool \<Rightarrow> (error + unit) \<times> 'a pool" where
  "ret_move P now obj s =
     (case (if max_use P \<noteq> 0 then
              (case uses_tab s obj of
                 None \<Rightarrow> Inl KeyError
               | Some u \<Rightarrow> Inr (max_use P \<le> uses u))
            else Inr False) of
        Inl e \<Rightarrow> (Inl e, s)
      | Inr wornout \<Rightarrow>
          if wornout then (Inr (), to_del obj (s\<lparr>nwornout := nwornout s + 1\<rparr>))
          else
            (let s1 = s\<lparr>using_objs := removeAll obj (using_objs s),
                        avail := set_add obj (avail s)\<rparr>
             in case uses_tab s1 obj of
                  None \<Rightarrow> (Inl KeyError, s1)
                | Some u \<Rightarrow>
                    (Inr (), s1\<lparr>uses_tab := (uses_tab s1)(obj \<mapsto> u\<lparr>last_ret := now\<rparr>)\<rparr>)))"

text \<open>\<^verbatim>\<open>Pool.ret\<close>.\<close>

definition pool_ret :: "'a params \<Rightarrow> real \<Rightarrow> 'a \<Rightarrow> 'a pool \<Rightarrow> (error + unit) \<times> 'a pool" where
  "pool_ret P now obj s0 =
     (let s = guarded_hook (retter P) Retter_exception obj s0 in
      if obj \<notin> set (using_objs s) then (Inr (), s)
      else
        case ret_move P now obj s of
          (Inl e, s1) \<Rightarrow> (Inl e, s1)
        | (Inr u, s1) \<Rightarrow>
            (case pool_sem_release s1 of
               Inl e \<Rightarrow> (Inl e, s1)
             | Inr s2 \<Rightarrow> pool_fill P now (pool_empty P s2)))"

subsection \<open>Housekeeping\<close>

text \<open>
  The first loop of \<^verbatim>\<open>Pool._hkRound\<close>, over \<^verbatim>\<open>list(self._using)\<close>. The accumulator is
  \<^verbatim>\<open>(long_run, long_kill, long_time)\<close>.
\<close>

fun kill_loop ::
  "'a params \<Rightarrow> real \<Rightarrow> 'a list \<Rightarrow> int \<times> int \<times> real \<Rightarrow> 'a pool
     \<Rightarrow> (error + int \<times> int \<times> real) \<times> 'a pool" where
  "kill_loop P now [] acc s = (Inr acc, s)"
| "kill_loop P now (obj # objs) (long_run, long_kill, long_time) s =
     (case uses_tab s obj of
        None \<Rightarrow> (Inl KeyError, s)
      | Some u \<Rightarrow>
          (let running = now - last_get u;
               long_run' = (if max_using_delay_warn P \<le> running then long_run + 1 else long_run);
               long_time' = (if max_using_delay_warn P \<le> running then long_time + running
                             else long_time)
           in if max_using_delay_kill P \<noteq> 0 \<and> max_using_delay_kill P \<le> running then
                (let s2 = to_del obj (s\<lparr>nkilled := nkilled s + 1\<rparr>)
                 in case pool_sem_release s2 of
                      Inl e \<Rightarrow> (Inl e, s2)
                    | Inr s3 \<Rightarrow> kill_loop P now objs (long_run', long_kill + 1, long_time') s3)
              else kill_loop P now objs (long_run', long_kill, long_time') s))"

text \<open>The borrow-age sweep: the first \<^verbatim>\<open>if\<close> of \<^verbatim>\<open>Pool._hkRound\<close>.\<close>

definition kill_sweep :: "'a params \<Rightarrow> real \<Rightarrow> 'a pool \<Rightarrow> (error + unit) \<times> 'a pool" where
  "kill_sweep P now s =
     (if max_using_delay_warn P \<noteq> 0 then
        (case kill_loop P now (using_objs s) (0, 0, 0) s of
           (Inl e, s1) \<Rightarrow> (Inl e, s1)
         | (Inr (long_run, long_kill, long_time), s1) \<Rightarrow>
             (Inr (), if long_run \<noteq> 0 \<or> long_kill \<noteq> 0 then log_add Long_running s1 else s1))
      else (Inr (), s))"

text \<open>
  The second loop of \<^verbatim>\<open>Pool._hkRound\<close>, over \<^verbatim>\<open>list(self._avail)\<close>, with its
  \<^verbatim>\<open>break\<close>.
\<close>

fun idle_loop :: "'a params \<Rightarrow> real \<Rightarrow> 'a list \<Rightarrow> 'a pool \<Rightarrow> (error + unit) \<times> 'a pool" where
  "idle_loop P now [] s = (Inr (), s)"
| "idle_loop P now (obj # objs) s =
     (case uses_tab s obj of
        None \<Rightarrow> (Inl KeyError, s)
      | Some u \<Rightarrow>
          if max_avail_delay P \<le> now - last_ret u then
            (let s2 = to_del obj (s\<lparr>nrecycled := nrecycled s + 1\<rparr>)
             in if nobjs s2 \<le> cur_min_size s2 then (Inr (), s2)
                else idle_loop P now objs s2)
          else idle_loop P now objs s)"

text \<open>The idle sweep: the second \<^verbatim>\<open>if\<close> of \<^verbatim>\<open>Pool._hkRound\<close>.\<close>

definition idle_sweep :: "'a params \<Rightarrow> real \<Rightarrow> 'a pool \<Rightarrow> (error + unit) \<times> 'a pool" where
  "idle_sweep P now s =
     (if max_avail_delay P \<noteq> 0 \<and> cur_min_size s < nobjs s
      then idle_loop P now (avail s) s
      else (Inr (), s))"

text \<open>\<^verbatim>\<open>Pool._hkRound\<close>.\<close>

definition pool_hkRound :: "'a params \<Rightarrow> real \<Rightarrow> 'a pool \<Rightarrow> (error + unit) \<times> 'a pool" where
  "pool_hkRound P now s =
     (case kill_sweep P now (s\<lparr>hk_rounds := hk_rounds s + 1\<rparr>) of
        (Inl e, s1) \<Rightarrow> (Inl e, s1)
      | (Inr u, s1) \<Rightarrow> idle_sweep P now s1)"

text \<open>
  The \<^verbatim>\<open>try\<close> of \<^verbatim>\<open>Pool._health_check\<close> with its \<^verbatim>\<open>except\<close>: \<^verbatim>\<open>healthy\<close> starts as
  \<^verbatim>\<open>True\<close> and keeps that value when the hook raises.
\<close>

definition health_ask :: "('a \<Rightarrow> bool outcome) \<Rightarrow> 'a \<Rightarrow> 'a pool \<Rightarrow> bool \<times> 'a pool" where
  "health_ask h obj s =
     (let s1 = s\<lparr>nhealth := nhealth s + 1\<rparr>
      in case h obj of
           Returns b \<Rightarrow> (b, s1)
         | Raises \<Rightarrow> (True, log_add Health_check_error (s1\<lparr>hc_errors := hc_errors s1 + 1\<rparr>)))"

text \<open>
  The block under \<^verbatim>\<open>if not healthy\<close>. \<open>tr\<close> is \<^verbatim>\<open>self._tracer or str\<close>, with \<open>None\<close> for
  \<^verbatim>\<open>str\<close>; it is called for the log message, outside any \<^verbatim>\<open>try\<close>.
\<close>

definition health_bad ::
  "('a \<Rightarrow> string outcome) option \<Rightarrow> 'a \<Rightarrow> 'a pool \<Rightarrow> (error + unit) \<times> 'a pool" where
  "health_bad tr obj s =
     (case (case tr of None \<Rightarrow> Returns [] | Some f \<Rightarrow> f obj) of
        Raises \<Rightarrow> (Inl HookError, s)
      | Returns txt \<Rightarrow>
          (let s1 = log_add Bad_health s
           in (Inr (), to_del obj (s1\<lparr>bad_health := bad_health s1 + 1\<rparr>))))"

text \<open>
  The body of the loop of \<^verbatim>\<open>Pool._health_check\<close> for one object: borrow, ask the hook,
  return the object in the \<^verbatim>\<open>finally\<close>, and remove it when the hook answered \<^verbatim>\<open>False\<close>.
\<close>

definition health_one ::
  "('a \<Rightarrow> bool outcome) \<Rightarrow> ('a \<Rightarrow> string outcome) option \<Rightarrow> 'a \<Rightarrow> 'a pool
     \<Rightarrow> (error + unit) \<times> 'a pool" where
  "health_one h tr obj s =
     (case pool_borrow obj s of
        (Inl e, s1) \<Rightarrow> (Inl e, s1)
      | (Inr borrowed, s1) \<Rightarrow>
          if \<not> borrowed then (Inr (), s1)
          else
            (case health_ask h obj s1 of
               (healthy, s2) \<Rightarrow>
                 (case pool_return obj s2 of
                    (Inl e, s3) \<Rightarrow> (Inl e, s3)
                  | (Inr u, s3) \<Rightarrow>
                      if \<not> healthy then health_bad tr obj s3 else (Inr (), s3))))"

fun health_loop ::
  "('a \<Rightarrow> bool outcome) \<Rightarrow> ('a \<Rightarrow> string outcome) option \<Rightarrow> 'a list \<Rightarrow> 'a pool
     \<Rightarrow> (error + unit) \<times> 'a pool" where
  "health_loop h tr [] s = (Inr (), s)"
| "health_loop h tr (obj # objs) s =
     (case health_one h tr obj s of
        (Inl e, s1) \<Rightarrow> (Inl e, s1)
      | (Inr u, s1) \<Rightarrow> health_loop h tr objs s1)"

text \<open>\<^verbatim>\<open>Pool._health_check\<close>.\<close>

definition pool_health_check :: "'a params \<Rightarrow> 'a pool \<Rightarrow> (error + unit) \<times> 'a pool" where
  "pool_health_check P s =
     (case health P of
        None \<Rightarrow> (Inl AssertionError, s)
      | Some h \<Rightarrow>
          (let s1 = s\<lparr>hc_rounds := hc_rounds s + 1\<rparr>
           in health_loop h (tracer P) (avail s1) s1))"

text \<open>
  One turn of the loop of \<^verbatim>\<open>Pool._houseKeeping\<close>, after the sleep and with debugging
  off: the round under the lock, with its own \<^verbatim>\<open>try\<close>, then the health check, the drain
  and the refill.
\<close>

definition hk_cycle :: "'a params \<Rightarrow> real \<Rightarrow> 'a pool \<Rightarrow> (error + unit) \<times> 'a pool" where
  "hk_cycle P now s =
     (let s1 = (case pool_hkRound P now s of
                  (Inl e, s') \<Rightarrow> log_add Housekeeper_round_error (s'\<lparr>hk_errors := hk_errors s' + 1\<rparr>)
                | (Inr u, s') \<Rightarrow> s')
      in case (if health P \<noteq> None then
                 (if health_freq P = 0 then (Inl ZeroDivisionError, s1)
                  else if hk_rounds s1 mod health_freq P = 0 then pool_health_check P s1
                  else (Inr (), s1))
               else (Inr (), s1)) of
           (Inl e, s2) \<Rightarrow> (Inl e, s2)
         | (Inr u, s2) \<Rightarrow> pool_fill P now (pool_empty P s2))"

subsection \<open>Construction and shutdown\<close>

text \<open>
  \<^verbatim>\<open>Pool.__init__\<close>, for a process that does not set \<^verbatim>\<open>PPP_WERKZEUG_WORKAROUND\<close>: the
  fields, the semaphore when \<^verbatim>\<open>max_size\<close> is not zero (\<^verbatim>\<open>BoundedSemaphore\<close> refuses a
  negative value), and the first \<^verbatim>\<open>_fill\<close>.
\<close>

definition pool_fields :: "'a params \<Rightarrow> 'a pool" where
  "pool_fields P =
     \<lparr>nobjs = 0, nuses = 0, ncreating = 0, ncreated = 0, nhealth = 0, bad_health = 0,
      nborrows = 0, nreturns = 0, nkilled = 0, nrecycled = 0, nwornout = 0, ndestroys = 0,
      hc_rounds = 0, hc_errors = 0, hk_rounds = 0, hk_errors = 0,
      shutdown_flag = False, cur_min_size = min_size P,
      avail = [], using_objs = [], todel = [], uses_tab = Map.empty,
      sem = (if max_size P \<noteq> 0
             then Some \<lparr>sem_value = max_size P, initial_value = max_size P\<rparr> else None),
      logged = []\<rparr>"

definition pool_init :: "'a params \<Rightarrow> real \<Rightarrow> (error + unit) \<times> 'a pool" where
  "pool_init P now =
     (if max_size P < 0 then (Inl ValueError, (pool_fields P)\<lparr>sem := None\<rparr>)
      else pool_fill P now (pool_fields P))"

text \<open>\<^verbatim>\<open>Pool.__delete__\<close>.\<close>

definition pool_delete :: "'a params \<Rightarrow> 'a pool \<Rightarrow> 'a pool" where
  "pool_delete P s =
     (let s1 = (if using_objs s \<noteq> [] then
                  (fold (pool_del P) (using_objs s) (log_add Deleting_in_use s))\<lparr>using_objs := []\<rparr>
                else s);
          s2 = fold (pool_del P) (avail s1) s1
      in s2\<lparr>avail := [], uses_tab := Map.empty\<rparr>)"

text \<open>\<^verbatim>\<open>Pool.shutdown\<close>; joining the housekeeper thread changes no field.\<close>

definition pool_shutdown :: "'a params \<Rightarrow> 'a pool \<Rightarrow> 'a pool" where
  "pool_shutdown P s = pool_delete P (s\<lparr>shutdown_flag := True, cur_min_size := 0\<rparr>)"

subsection \<open>Statistics\<close>

text \<open>
  \<^verbatim>\<open>Pool.__stats_data\<close>: the description of one object, from the \<^verbatim>\<open>stats\<close> hook, else
  from the \<^verbatim>\<open>tracer\<close> hook, else \<^verbatim>\<open>str(obj)\<close>, with the use data relative to \<open>now\<close>.
  Neither hook is called inside a \<^verbatim>\<open>try\<close>.
\<close>

datatype descr = Stats_of string | Trace_of string | Str_of

record objdata =
  data_descr :: descr
  data_use :: "useinfo option"

definition stats_data :: "'a params \<Rightarrow> 'a \<Rightarrow> real \<Rightarrow> 'a pool \<Rightarrow> error + objdata" where
  "stats_data P obj now s =
     (case (case stats P of
              Some f \<Rightarrow> (case f obj of Raises \<Rightarrow> Inl HookError | Returns d \<Rightarrow> Inr (Stats_of d))
            | None \<Rightarrow>
                (case tracer P of
                   Some g \<Rightarrow> (case g obj of Raises \<Rightarrow> Inl HookError | Returns d \<Rightarrow> Inr (Trace_of d))
                 | None \<Rightarrow> Inr Str_of)) of
        Inl e \<Rightarrow> Inl e
      | Inr d \<Rightarrow>
          Inr \<lparr>data_descr = d,
               data_use = (case uses_tab s obj of
                             None \<Rightarrow> None
                           | Some suo \<Rightarrow>
                               Some \<lparr>uses = uses suo, last_get = last_get suo - now,
                                     last_ret = last_ret suo - now\<rparr>)\<rparr>)"

text \<open>The list comprehensions of \<^verbatim>\<open>Pool.stats\<close>: the first exception ends them.\<close>

fun stats_list :: "'a params \<Rightarrow> 'a list \<Rightarrow> real \<Rightarrow> 'a pool \<Rightarrow> error + objdata list" where
  "stats_list P [] now s = Inr []"
| "stats_list P (obj # objs) now s =
     (case stats_data P obj now s of
        Inl e \<Rightarrow> Inl e
      | Inr d \<Rightarrow> (case stats_list P objs now s of Inl e \<Rightarrow> Inl e | Inr ds \<Rightarrow> Inr (d # ds)))"

text \<open>
  \<^verbatim>\<open>Pool.stats\<close>. The snapshot keeps the entries computed from the state; the other
  entries of the dictionary are copies of attributes, which are the fields of \<open>snap_pool\<close>.
\<close>

record 'a snapshot =
  snap_sem :: "bsem option"
  navail :: nat
  nusing :: nat
  ntodel :: nat
  snap_avail :: "objdata list"
  snap_using :: "objdata list"
  snap_pool :: "'a pool"

definition pool_stats :: "'a params \<Rightarrow> real \<Rightarrow> 'a pool \<Rightarrow> error + 'a snapshot" where
  "pool_stats P now s =
     (case stats_list P (avail s) now s of
        Inl e \<Rightarrow> Inl e
      | Inr da \<Rightarrow>
          (case stats_list P (using_objs s) now s of
             Inl e \<Rightarrow> Inl e
           | Inr du \<Rightarrow>
               Inr \<lparr>snap_sem = sem s, navail = length (avail s), nusing = length (using_objs s),
                    ntodel = length (todel s), snap_avail = da, snap_using = du,
                    snap_pool = s\<rparr>))"

subsection \<open>The scoped helpers\<close>

text \<open>
  \<^verbatim>\<open>Pool.obj\<close>, a generator under \<^verbatim>\<open>contextlib.contextmanager\<close>, as used in
  \<^verbatim>\<open>with pool.obj(timeout) as o: body\<close>. The body runs at the \<^verbatim>\<open>yield\<close>. When the body
  raises, the context manager throws the exception into the generator at the \<^verbatim>\<open>yield\<close>;
  the generator has no \<^verbatim>\<open>try\<close> around it, so the exception leaves the generator there and
  the statement after the \<^verbatim>\<open>yield\<close> does not run.
\<close>

definition pool_obj ::
  "'a params \<Rightarrow> real \<Rightarrow> real option \<Rightarrow> nat \<Rightarrow> ('a \<Rightarrow> 'a pool \<Rightarrow> (error + 'r) \<times> 'a pool)
     \<Rightarrow> 'a pool \<Rightarrow> (error + 'r) \<times> 'a pool" where
  "pool_obj P now tmo pick body s =
     (case pool_get P now tmo pick s of
        (Inl e, s1) \<Rightarrow> (Inl e, s1)
      | (Inr obj, s1) \<Rightarrow>
          (case body obj s1 of
             (Inl e, s2) \<Rightarrow> (Inl e, s2)
           | (Inr r, s2) \<Rightarrow>
               (case pool_ret P now obj s2 of
                  (Inl e, s3) \<Rightarrow> (Inl e, s3)
                | (Inr u, s3) \<Rightarrow> (Inr r, s3))))"

text \<open>
  A \<^verbatim>\<open>Proxy\<close> after \<^verbatim>\<open>_set_obj\<close> or \<^verbatim>\<open>_set_fun\<close>, seen from one execution context:
  \<open>proxy_local\<close> is the attribute \<^verbatim>\<open>obj\<close> of \<^verbatim>\<open>_local\<close>, \<open>None\<close> when the attribute is
  absent. The pool the proxy made is part of its state.
\<close>

record 'a proxy =
  proxy_fun :: "(int \<Rightarrow> 'a outcome) option"
  proxy_pool :: "'a pool option"
  proxy_local :: "'a option"
  proxy_nobjs :: int

text \<open>\<^verbatim>\<open>Proxy._get_obj\<close>.\<close>

definition proxy_get_obj ::
  "'a params \<Rightarrow> real \<Rightarrow> real option \<Rightarrow> nat \<Rightarrow> 'a proxy \<Rightarrow> (error + 'a) \<times> 'a proxy" where
  "proxy_get_obj P now tmo pick x =
     (case (case (proxy_fun x, proxy_local x) of
              (Some f, None) \<Rightarrow>
                (case proxy_pool x of
                   Some s \<Rightarrow>
                     (case pool_get P now tmo pick s of
                        (Inl e, s1) \<Rightarrow> Inl (e, x\<lparr>proxy_pool := Some s1\<rparr>)
                      | (Inr obj, s1) \<Rightarrow>
                          Inr (x\<lparr>proxy_pool := Some s1, proxy_local := Some obj,
                                 proxy_nobjs := nobjs s1\<rparr>))
                 | None \<Rightarrow>
                     (case f (proxy_nobjs x) of
                        Raises \<Rightarrow> Inl (FunError, x)
                      | Returns obj \<Rightarrow>
                          Inr (x\<lparr>proxy_local := Some obj, proxy_nobjs := proxy_nobjs x + 1\<rparr>)))
            | _ \<Rightarrow> Inr x) of
        Inl (e, x1) \<Rightarrow> (Inl e, x1)
      | Inr x1 \<Rightarrow>
          (case proxy_local x1 of
             None \<Rightarrow> (Inl AttributeError, x1)
           | Some obj \<Rightarrow> (Inr obj, x1)))"

text \<open>\<^verbatim>\<open>Proxy._ret_obj\<close>.\<close>

definition proxy_ret_obj ::
  "'a params \<Rightarrow> real \<Rightarrow> 'a proxy \<Rightarrow> (error + unit) \<times> 'a proxy" where
  "proxy_ret_obj P now x =
     (case (proxy_pool x, proxy_local x) of
        (Some s, Some obj) \<Rightarrow>
          (case pool_ret P now obj s of
             (Inl e, s1) \<Rightarrow> (Inl e, x\<lparr>proxy_pool := Some s1\<rparr>)
           | (Inr u, s1) \<Rightarrow> (Inr (), x\<lparr>proxy_pool := Some s1, proxy_local := None\<rparr>))
      | _ \<Rightarrow> (Inr (), x))"

text \<open>\<^verbatim>\<open>Proxy._obj\<close>, the same kind of generator as \<^verbatim>\<open>Pool.obj\<close>.\<close>

definition proxy_obj ::
  "'a params \<Rightarrow> real \<Rightarrow> real option \<Rightarrow> nat \<Rightarrow> ('a \<Rightarrow> 'a proxy \<Rightarrow> (error + 'r) \<times> 'a proxy)
     \<Rightarrow> 'a proxy \<Rightarrow> (error + 'r) \<times> 'a proxy" where
  "proxy_obj P now tmo pick body x =
     (case proxy_get_obj P now tmo pick x of
        (Inl e, x1) \<Rightarrow> (Inl e, x1)
      | (Inr obj, x1) \<Rightarrow>
          (case body obj x1 of
             (Inl e, x2) \<Rightarrow> (Inl e, x2)
           | (Inr r, x2) \<Rightarrow>
               (case proxy_ret_obj P now x2 of
                  (Inl e, x3) \<Rightarrow> (Inl e, x3)
                | (Inr u, x3) \<Rightarrow> (Inr r, x3))))"

subsection \<open>Sequences of operations\<close>

text \<open>
  The calls a pool receives: \<^verbatim>\<open>get\<close> and \<^verbatim>\<open>ret\<close> from its users, a turn of the
  housekeeper, and the steps a turn is made of, each with the clock reading it runs at where
  it reads the clock. \<open>step\<close> keeps the state a call leaves behind, also when the call raised.
\<close>

datatype 'a op =
    Get real "real option" nat
  | Ret real 'a
  | Borrow 'a
  | Return 'a
  | HkRound real
  | HealthCheck
  | Empty
  | Fill real
  | HkCycle real

fun step :: "'a params \<Rightarrow> 'a op \<Rightarrow> 'a pool \<Rightarrow> 'a pool" where
  "step P (Get now tmo pick) s = snd (pool_get P now tmo pick s)"
| "step P (Ret now obj) s = snd (pool_ret P now obj s)"
| "step P (Borrow obj) s = snd (pool_borrow obj s)"
| "step P (Return obj) s = snd (pool_return obj s)"
| "step P (HkRound now) s = snd (pool_hkRound P now s)"
| "step P HealthCheck s = snd (pool_health_check P s)"
| "step P Empty s = pool_empty P s"
| "step P (Fill now) s = snd (pool_fill P now s)"
| "step P (HkCycle now) s = snd (hk_cycle P now s)"

definition run :: "'a params \<Rightarrow> 'a op list \<Rightarrow> 'a pool \<Rightarrow> 'a pool" where
  "run P ops s = fold (step P) ops s"

subsection \<open>The bookkeeping invariant\<close>

text \<open>
  The factory makes a new object at every attempt that succeeds: no two attempts return the
  same object. The pool keeps its objects in sets and a dictionary, so an object returned
  twice would be one element counted twice.
\<close>

definition fresh_factory :: "'a params \<Rightarrow> bool" where
  "fresh_factory P \<longleftrightarrow>
     (\<forall>k n k' n' obj. fun_hook P k n = Returns obj \<longrightarrow> fun_hook P k' n' = Returns obj \<longrightarrow> k = k')"

definition known :: "'a pool \<Rightarrow> 'a set" where
  "known s = set (avail s) \<union> set (using_objs s) \<union> set (todel s)"

definition sets_ok :: "'a pool \<Rightarrow> bool" where
  "sets_ok s \<longleftrightarrow>
     distinct (avail s) \<and> distinct (using_objs s) \<and> distinct (todel s) \<and>
     set (avail s) \<inter> set (using_objs s) = {} \<and>
     (set (avail s) \<union> set (using_objs s)) \<inter> set (todel s) = {} \<and>
     dom (uses_tab s) = set (avail s) \<union> set (using_objs s)"

definition counts_ok :: "'a pool \<Rightarrow> bool" where
  "counts_ok s \<longleftrightarrow>
     nobjs s = int (length (avail s)) + int (length (using_objs s)) \<and>
     ncreated s = nobjs s + int (length (todel s)) + ndestroys s"

definition sem_ok :: "'a params \<Rightarrow> 'a pool \<Rightarrow> bool" where
  "sem_ok P s \<longleftrightarrow>
     (case sem s of
        None \<Rightarrow> max_size P = 0
      | Some b \<Rightarrow>
          max_size P \<noteq> 0 \<and> initial_value b = max_size P \<and> 0 \<le> sem_value b \<and>
          sem_value b + int (length (using_objs s)) = max_size P)"

definition made_ok :: "'a params \<Rightarrow> 'a pool \<Rightarrow> bool" where
  \<comment> \<open>every object the pool holds came from an attempt already made\<close>
  "made_ok P s \<longleftrightarrow>
     (\<forall>obj \<in> known s. \<exists>k n. k \<le> ncreating s \<and> fun_hook P k n = Returns obj)"

definition book_ok :: "'a params \<Rightarrow> 'a pool \<Rightarrow> bool" where
  "book_ok P s \<longleftrightarrow> sets_ok s \<and> counts_ok s \<and> made_ok P s"

definition pool_inv :: "'a params \<Rightarrow> 'a pool \<Rightarrow> bool" where
  "pool_inv P s \<longleftrightarrow> book_ok P s \<and> sem_ok P s"

text \<open>
  How the use counters of a later state \<open>s'\<close> relate to those of \<open>s\<close>: an object that \<open>s'\<close>
  tracks is either tracked in \<open>s\<close> with no more uses, or was made by an attempt after \<open>s\<close>.
\<close>

definition uses_grow :: "'a params \<Rightarrow> 'a pool \<Rightarrow> 'a pool \<Rightarrow> bool" where
  "uses_grow P s s' \<longleftrightarrow>
     ncreating s \<le> ncreating s' \<and>
     (\<forall>obj u'. uses_tab s' obj = Some u' \<longrightarrow>
        (case uses_tab s obj of
           Some u \<Rightarrow> uses u \<le> uses u'
         | None \<Rightarrow> (\<exists>k n. ncreating s < k \<and> k \<le> ncreating s' \<and> fun_hook P k n = Returns obj)))"

definition good :: "'a params \<Rightarrow> 'a pool \<Rightarrow> 'a pool \<Rightarrow> bool" where
  "good P s s' \<longleftrightarrow>
     book_ok P s' \<and> uses_grow P s s' \<and>
     cur_min_size s' = cur_min_size s \<and> shutdown_flag s' = shutdown_flag s"

subsection \<open>A concrete pool\<close>

text \<open>
  Parameters for running the model: the objects are integers, the factory returns the number
  of the attempt, no hook is set, the pool is unbounded and keeps one object.
\<close>

definition demo_params :: "int params" where
  "demo_params =
     \<lparr>fun_hook = (\<lambda>k n. Returns k), max_size = 0, min_size = 1, timeout = None,
      max_use = 0, max_avail_delay = 0, max_using_delay = 0, max_using_delay_kill = 0,
      health_freq = 1, opener = None, getter = None, retter = None, closer = None,
      health = None, stats = None, tracer = None\<rparr>"

text \<open>The pool made from the parameters, at time 0.\<close>

definition demo_pool :: "int params \<Rightarrow> int pool" where
  "demo_pool P = snd (pool_init P 0)"

text \<open>A proxy over a pool, with nothing bound in the current context.\<close>

definition demo_proxy :: "int params \<Rightarrow> int proxy" where
  "demo_proxy P =
     \<lparr>proxy_fun = Some (\<lambda>n. fun_hook P 0 n), proxy_pool = Some (demo_pool P),
      proxy_local = None, proxy_nobjs = 0\<rparr>"

text \<open>A body of a \<^verbatim>\<open>with\<close> block that raises, and one that does nothing.\<close>

definition raising_body :: "'a \<Rightarrow> 's \<Rightarrow> (error + unit) \<times> 's" where
  "raising_body obj s = (Inl BodyError, s)"

definition quiet_body :: "'a \<Rightarrow> 's \<Rightarrow> (error + unit) \<times> 's" where
  "quiet_body obj s = (Inr (), s)"

text \<open>
  Inside \<^verbatim>\<open>get\<close>, between taking the token and registering the object as in use: \<open>s1\<close>
  holds one token of \<open>s\<close>, and the objects in use are those of \<open>s\<close>.
\<close>

definition holding :: "'a params \<Rightarrow> 'a pool \<Rightarrow> 'a pool \<Rightarrow> bool" where
  "holding P s s1 \<longleftrightarrow>
     using_objs s1 = using_objs s \<and>
     (case sem s of
        None \<Rightarrow> sem s1 = None
      | Some b \<Rightarrow> 0 < sem_value b \<and> sem s1 = Some (b\<lparr>sem_value := sem_value b - 1\<rparr>))"

section \<open>Properties\<close>

subsection \<open>A pool without a semaphore keeps none\<close>


lemma guarded_hook_sem [simp]: "sem (guarded_hook h ev obj s) = sem s"
  by (simp add: guarded_hook_def log_add_def split: option.splits outcome.splits)

lemma log_add_sem [simp]: "sem (log_add ev s) = sem s"
  by (simp add: log_add_def)

lemma pool_out_sem [simp]: "sem (pool_out obj s) = sem s"
  by (simp add: pool_out_def Let_def)

lemma new_sem [simp]: "sem (snd (pool_new P now s)) = sem s"
  by (simp add: pool_new_def pool_create_def Let_def split: outcome.splits)

lemma sem_release_None: "sem s = None \<Longrightarrow> pool_sem_release s = Inr s"
  by (simp add: pool_sem_release_def)

lemma fold_destroy_sem [simp]: "sem (fold (pool_destroy P) xs s) = sem s"
  by (induction xs arbitrary: s) (simp_all add: pool_destroy_def)

lemma empty_sem [simp]: "sem (pool_empty P s) = sem s"
  by (simp add: pool_empty_def Let_def)

lemma fill_loop_None: "sem s = None \<Longrightarrow> sem (snd (fill_loop P now n s)) = None"
proof (induction n arbitrary: s)
  case 0
  then show ?case by simp
next
  case (Suc n)
  let ?s2 = "case pool_new P now s of (Inl e, s') \<Rightarrow> log_add New_object_failed s' | (Inr obj, s') \<Rightarrow> s'"
  have "sem ?s2 = sem (snd (pool_new P now s))"
    by (cases "pool_new P now s") (auto split: sum.splits)
  then have s2: "sem ?s2 = None" using Suc.prems by simp
  have "fill_loop P now (Suc n) s = fill_loop P now n ?s2"
    using Suc.prems s2 by (simp add: sem_release_None Let_def)
  then show ?case using Suc.IH[OF s2] by simp
qed

lemma fill_None: "sem s = None \<Longrightarrow> sem (snd (pool_fill P now s)) = None"
  by (simp add: pool_fill_def fill_loop_None)

lemma borrow_None: "sem s = None \<Longrightarrow> sem (snd (pool_borrow obj s)) = None"
  by (simp add: pool_borrow_def sem_release_None)

lemma return_None: "sem s = None \<Longrightarrow> sem (snd (pool_return obj s)) = None"
  by (simp add: pool_return_def sem_release_None Let_def)


lemma to_del_sem [simp]: "sem (to_del obj s) = sem s"
  by (simp add: to_del_def Let_def)

lemma get_token_None: "sem s = None \<Longrightarrow> get_token P tmo s = Inr s"
  by (simp add: get_token_def)

lemma get_ensure_None: "sem s = None \<Longrightarrow> sem (snd (get_ensure P now s)) = None"
proof -
  assume a: "sem s = None"
  show ?thesis
  proof (cases "pool_new P now s")
    case (Pair r s1)
    then have "sem s1 = None" using a new_sem[of P now s] by simp
    then show ?thesis using Pair a
      by (cases r) (simp_all add: get_ensure_def sem_release_None Let_def)
  qed
qed

lemma get_pop_sem [simp]: "sem (snd (get_pop now pick s)) = sem s"
  by (simp add: get_pop_def Let_def split: option.splits)

lemma get_None: "sem s = None \<Longrightarrow> sem (snd (pool_get P now tmo pick s)) = None"
proof -
  assume a: "sem s = None"
  obtain e s2 where e: "get_ensure P now s = (e, s2)" by (cases "get_ensure P now s")
  then have s2: "sem s2 = None" using get_ensure_None[OF a, of P now] by simp
  obtain r s3 where p: "get_pop now pick s2 = (r, s3)" by (cases "get_pop now pick s2")
  then have s3: "sem s3 = None" using get_pop_sem[of now pick s2] s2 by simp
  show ?thesis using a e s2 p s3
    by (cases e; cases r) (simp_all add: pool_get_def get_token_None)
qed

lemma ret_move_sem [simp]: "sem (snd (ret_move P now obj s)) = sem s"
  by (simp add: ret_move_def Let_def split: option.splits)

lemma ret_None: "sem s = None \<Longrightarrow> sem (snd (pool_ret P now obj s)) = None"
proof -
  assume a: "sem s = None"
  let ?s = "guarded_hook (retter P) Retter_exception obj s"
  have h: "sem ?s = None" using a by simp
  obtain r s1 where m: "ret_move P now obj ?s = (r, s1)" by (cases "ret_move P now obj ?s")
  then have s1: "sem s1 = None" using ret_move_sem[of P now obj ?s] h by simp
  have "sem (snd (pool_fill P now (pool_empty P s1))) = None"
    by (rule fill_None) (simp add: s1)
  then show ?thesis using h m s1
    by (cases r) (simp_all add: pool_ret_def Let_def sem_release_None)
qed

lemma kill_loop_None: "sem s = None \<Longrightarrow> sem (snd (kill_loop P now objs acc s)) = None"
proof (induction objs arbitrary: s acc)
  case Nil
  then show ?case by simp
next
  case (Cons obj objs)
  obtain a b c where acc: "acc = (a, b, c)" by (cases acc)
  show ?case
  proof (cases "uses_tab s obj")
    case None
    then show ?thesis using Cons.prems acc by simp
  next
    case (Some u)
    have "sem (to_del obj (s\<lparr>nkilled := nkilled s + 1\<rparr>)) = None" using Cons.prems by simp
    then show ?thesis using Some acc Cons.prems Cons.IH
      by (simp add: Let_def sem_release_None)
  qed
qed

lemma kill_sweep_None: "sem s = None \<Longrightarrow> sem (snd (kill_sweep P now s)) = None"
proof -
  assume a: "sem s = None"
  obtain r s1 where k: "kill_loop P now (using_objs s) (0, 0, 0) s = (r, s1)"
    by (cases "kill_loop P now (using_objs s) (0, 0, 0) s")
  then have "sem s1 = None" using kill_loop_None[OF a, of P now "using_objs s" "(0,0,0)"] by simp
  then show ?thesis using a k by (cases r) (auto simp: kill_sweep_def)
qed

lemma idle_loop_None: "sem s = None \<Longrightarrow> sem (snd (idle_loop P now objs s)) = None"
proof (induction objs arbitrary: s)
  case Nil
  then show ?case by simp
next
  case (Cons obj objs)
  show ?case
  proof (cases "uses_tab s obj")
    case None
    then show ?thesis using Cons.prems by simp
  next
    case (Some u)
    have "sem (to_del obj (s\<lparr>nrecycled := nrecycled s + 1\<rparr>)) = None" using Cons.prems by simp
    then show ?thesis using Some Cons.prems Cons.IH
      by (simp add: Let_def)
  qed
qed

lemma idle_sweep_None: "sem s = None \<Longrightarrow> sem (snd (idle_sweep P now s)) = None"
  by (simp add: idle_sweep_def idle_loop_None)

lemma hkRound_None: "sem s = None \<Longrightarrow> sem (snd (pool_hkRound P now s)) = None"
proof -
  assume a: "sem s = None"
  let ?s0 = "s\<lparr>hk_rounds := hk_rounds s + 1\<rparr>"
  obtain r s1 where k: "kill_sweep P now ?s0 = (r, s1)" by (cases "kill_sweep P now ?s0")
  then have "sem s1 = None" using kill_sweep_None[of ?s0 P now] a by simp
  then show ?thesis using k by (cases r) (simp_all add: pool_hkRound_def idle_sweep_None)
qed


lemma health_ask_sem [simp]: "sem (snd (health_ask h obj s)) = sem s"
  by (simp add: health_ask_def Let_def split: outcome.splits)

lemma health_bad_sem [simp]: "sem (snd (health_bad tr obj s)) = sem s"
  by (simp add: health_bad_def Let_def split: outcome.splits option.splits)

lemma health_one_None: "sem s = None \<Longrightarrow> sem (snd (health_one h tr obj s)) = None"
proof -
  assume a: "sem s = None"
  obtain r s1 where b: "pool_borrow obj s = (r, s1)" by (cases "pool_borrow obj s")
  then have s1: "sem s1 = None" using borrow_None[OF a, of obj] by simp
  obtain hl s2 where h: "health_ask h obj s1 = (hl, s2)" by (cases "health_ask h obj s1")
  then have s2: "sem s2 = None" using health_ask_sem[of h obj s1] s1 by simp
  obtain r3 s3 where r: "pool_return obj s2 = (r3, s3)" by (cases "pool_return obj s2")
  then have s3: "sem s3 = None" using return_None[OF s2, of obj] by simp
  have s4: "sem (snd (health_bad tr obj s3)) = None" using s3 by simp
  show ?thesis using b s1 h s2 r s3 s4
    by (cases r; cases r3) (simp_all add: health_one_def)
qed

lemma health_loop_None: "sem s = None \<Longrightarrow> sem (snd (health_loop h tr objs s)) = None"
proof (induction objs arbitrary: s)
  case Nil
  then show ?case by simp
next
  case (Cons obj objs)
  obtain r s1 where o: "health_one h tr obj s = (r, s1)" by (cases "health_one h tr obj s")
  then have "sem s1 = None" using health_one_None[OF Cons.prems, of h tr obj] by simp
  then show ?case using o Cons.IH by (cases r) simp_all
qed

lemma health_check_None: "sem s = None \<Longrightarrow> sem (snd (pool_health_check P s)) = None"
  by (cases "health P") (simp_all add: pool_health_check_def Let_def health_loop_None)

lemma hk_cycle_None: "sem s = None \<Longrightarrow> sem (snd (hk_cycle P now s)) = None"
proof -
  assume a: "sem s = None"
  obtain r s0 where k: "pool_hkRound P now s = (r, s0)" by (cases "pool_hkRound P now s")
  then have s0: "sem s0 = None" using hkRound_None[OF a, of P now] by simp
  define s1 where "s1 = (case pool_hkRound P now s of
                  (Inl e, s') \<Rightarrow> log_add Housekeeper_round_error (s'\<lparr>hk_errors := hk_errors s' + 1\<rparr>)
                | (Inr u, s') \<Rightarrow> s')"
  have s1: "sem s1 = None" using k s0 by (cases r) (simp_all add: s1_def)
  define c where "c = (if health P \<noteq> None then
                 (if health_freq P = 0 then (Inl ZeroDivisionError, s1)
                  else if hk_rounds s1 mod health_freq P = 0 then pool_health_check P s1
                  else (Inr (), s1))
               else (Inr (), s1))"
  have c: "sem (snd c) = None" using s1 by (simp add: c_def health_check_None)
  obtain rc s2 where cc: "c = (rc, s2)" by (cases c)
  then have s2: "sem s2 = None" using c by simp
  have "sem (snd (pool_fill P now (pool_empty P s2))) = None" by (rule fill_None) (simp add: s2)
  moreover have "hk_cycle P now s = (case c of (Inl e, s2) \<Rightarrow> (Inl e, s2) | (Inr u, s2) \<Rightarrow> pool_fill P now (pool_empty P s2))"
    by (simp add: hk_cycle_def s1_def c_def Let_def)
  ultimately show ?thesis using cc s2 by (cases rc) simp_all
qed

lemma step_None: "sem s = None \<Longrightarrow> sem (step P op s) = None"
  by (cases op) (simp_all add: get_None ret_None borrow_None return_None hkRound_None
      health_check_None fill_None hk_cycle_None)

lemma run_None: "sem s = None \<Longrightarrow> sem (run P ops s) = None"
  unfolding run_def by (induction ops arbitrary: s) (simp_all add: step_None)

lemma init_None: "max_size P = 0 \<Longrightarrow> sem (snd (pool_init P now)) = None"
  by (simp add: pool_init_def fill_None pool_fields_def)


subsection \<open>The exceptions of \<^verbatim>\<open>get\<close> on a pool without a semaphore\<close>


lemma new_err: "pool_new P now s = (Inl e, s') \<Longrightarrow> e = FunError"
  by (auto simp: pool_new_def pool_create_def Let_def split: outcome.splits)

lemma get_ensure_err:
  assumes "sem s = None" "get_ensure P now s = (Some e, s')"
  shows "e = FunError"
proof (cases "pool_new P now s")
  case (Pair r s1)
  then have "sem s1 = None" using new_sem[of P now s] assms(1) by simp
  then show ?thesis using assms Pair new_err[of P now s _ s1]
    by (cases r) (auto simp: get_ensure_def Let_def sem_release_None split: if_splits)
qed

lemma get_pop_err: "get_pop now pick s = (Inl e, s') \<Longrightarrow> e = KeyError"
  by (auto simp: get_pop_def Let_def split: if_splits option.splits)

lemma get_None_err:
  assumes "sem s = None" "fst (pool_get P now tmo pick s) = Inl e"
  shows "e \<in> {PoolException, FunError, KeyError}"
proof -
  obtain e1 s2 where e: "get_ensure P now s = (e1, s2)" by (cases "get_ensure P now s")
  obtain r s3 where p: "get_pop now pick s2 = (r, s3)" by (cases "get_pop now pick s2")
  show ?thesis
  proof (cases "shutdown_flag s")
    case True
    then show ?thesis using assms by (simp add: pool_get_def)
  next
    case False
    show ?thesis
    proof (cases e1)
      case None
      then show ?thesis using assms False e p get_pop_err[of now pick s2 _ s3]
        by (cases r) (auto simp: pool_get_def get_token_None)
    next
      case (Some e')
      then have "e' = FunError" using get_ensure_err[OF assms(1), of P now e' s2] e by simp
      then show ?thesis using assms False e Some by (simp add: pool_get_def get_token_None)
    qed
  qed
qed

lemma new_timeout_irrelevant: "pool_new (P\<lparr>timeout := t\<rparr>) now s = pool_new P now s"
  by (simp add: pool_new_def pool_create_def cong del: prod.case_cong_weak sum.case_cong_weak)

lemma get_None_timeout_irrelevant:
  assumes "sem s = None"
  shows "pool_get (P\<lparr>timeout := t\<rparr>) now tmo' pick s = pool_get P now tmo pick s"
  using assms by (simp add: pool_get_def get_token_None get_ensure_def new_timeout_irrelevant
      cong del: prod.case_cong_weak sum.case_cong_weak option.case_cong_weak)


subsection \<open>Lists as sets, and the bookkeeping of one transition\<close>

lemma set_add_set [simp]: "set (set_add x xs) = insert x (set xs)"
  by (auto simp: set_add_def)
lemma set_add_distinct [simp]: "distinct xs \<Longrightarrow> distinct (set_add x xs)"
  by (auto simp: set_add_def)
lemma set_add_length: "x \<notin> set xs \<Longrightarrow> length (set_add x xs) = Suc (length xs)"
  by (auto simp: set_add_def)
lemma length_removeAll_distinct:
  assumes "distinct xs" "x \<in> set xs"
  shows "int (length (removeAll x xs)) = int (length xs) - 1"
proof -
  have "0 < length xs" using assms(2) by (rule length_pos_if_in_set)
  moreover have "length (removeAll x xs) = length xs - 1"
    using assms by (simp add: distinct_remove1_removeAll[symmetric] length_remove1)
  ultimately show ?thesis by (cases xs) auto
qed

lemma guarded_hook_eq: "guarded_hook h ev obj s = s \<or> guarded_hook h ev obj s = log_add ev s"
  by (auto simp: guarded_hook_def split: option.splits outcome.splits)

lemma guarded_hook_fields [simp]:
  "avail (guarded_hook h ev obj s) = avail s"
  "using_objs (guarded_hook h ev obj s) = using_objs s"
  "todel (guarded_hook h ev obj s) = todel s"
  "uses_tab (guarded_hook h ev obj s) = uses_tab s"
  "sem (guarded_hook h ev obj s) = sem s"
  "nobjs (guarded_hook h ev obj s) = nobjs s"
  "ncreated (guarded_hook h ev obj s) = ncreated s"
  "ncreating (guarded_hook h ev obj s) = ncreating s"
  "ndestroys (guarded_hook h ev obj s) = ndestroys s"
  "cur_min_size (guarded_hook h ev obj s) = cur_min_size s"
  "shutdown_flag (guarded_hook h ev obj s) = shutdown_flag s"
  using guarded_hook_eq[of h ev obj s] by (auto simp: log_add_def)

lemma log_add_fields [simp]:
  "avail (log_add ev s) = avail s"
  "using_objs (log_add ev s) = using_objs s"
  "todel (log_add ev s) = todel s"
  "uses_tab (log_add ev s) = uses_tab s"
  "sem (log_add ev s) = sem s"
  "nobjs (log_add ev s) = nobjs s"
  "ncreated (log_add ev s) = ncreated s"
  "ncreating (log_add ev s) = ncreating s"
  "ndestroys (log_add ev s) = ndestroys s"
  "cur_min_size (log_add ev s) = cur_min_size s"
  "shutdown_flag (log_add ev s) = shutdown_flag s"
  by (simp_all add: log_add_def)

lemma made_ok_mono:
  assumes "made_ok P s" "known s' \<subseteq> known s" "ncreating s \<le> ncreating s'"
  shows "made_ok P s'"
  unfolding made_ok_def
proof
  fix x assume "x \<in> known s'"
  with assms(1,2) obtain k n where "k \<le> ncreating s" "fun_hook P k n = Returns x"
    unfolding made_ok_def by blast
  with assms(3) show "\<exists>k n. k \<le> ncreating s' \<and> fun_hook P k n = Returns x"
    by (intro exI[of _ k] exI[of _ n]) simp
qed



lemma book_okD:
  "book_ok P s \<Longrightarrow> sets_ok s" "book_ok P s \<Longrightarrow> counts_ok s" "book_ok P s \<Longrightarrow> made_ok P s"
  by (simp_all add: book_ok_def)

lemma sets_okD:
  assumes "sets_ok s"
  shows "distinct (avail s)" "distinct (using_objs s)" "distinct (todel s)"
    "x \<in> set (avail s) \<Longrightarrow> x \<notin> set (using_objs s)"
    "x \<in> set (avail s) \<Longrightarrow> x \<notin> set (todel s)"
    "x \<in> set (using_objs s) \<Longrightarrow> x \<notin> set (todel s)"
    "x \<in> set (using_objs s) \<Longrightarrow> x \<notin> set (avail s)"
    "dom (uses_tab s) = set (avail s) \<union> set (using_objs s)"
  using assms by (auto simp: sets_ok_def)

lemma book_same:
  assumes "book_ok P s"
    and f: "avail s' = avail s" "using_objs s' = using_objs s" "todel s' = todel s"
      "dom (uses_tab s') = dom (uses_tab s)" "nobjs s' = nobjs s" "ncreated s' = ncreated s"
      "ndestroys s' = ndestroys s" "ncreating s \<le> ncreating s'"
  shows "book_ok P s'"
proof -
  have "made_ok P s'"
  proof (rule made_ok_mono[of P s])
    show "made_ok P s" using assms(1) by (simp add: book_ok_def)
    show "known s' \<subseteq> known s" by (simp add: known_def f(1-3))
    show "ncreating s \<le> ncreating s'" by (rule f(8))
  qed
  moreover have "sets_ok s'" using book_okD(1)[OF assms(1)] by (simp add: sets_ok_def f(1-4))
  moreover have "counts_ok s'" using book_okD(2)[OF assms(1)] by (simp add: counts_ok_def f(1-3,5-7))
  ultimately show ?thesis by (simp add: book_ok_def)
qed

lemma book_retire:
  assumes "book_ok P s" "obj \<in> set (avail s) \<union> set (using_objs s)"
    and f: "avail s' = removeAll obj (avail s)" "using_objs s' = removeAll obj (using_objs s)"
      "todel s' = set_add obj (todel s)" "uses_tab s' = (uses_tab s)(obj := None)"
      "nobjs s' = nobjs s - 1" "ncreated s' = ncreated s"
      "ndestroys s' = ndestroys s" "ncreating s \<le> ncreating s'"
  shows "book_ok P s'"
proof -
  note so = book_okD(1)[OF assms(1)]
  note sd = sets_okD[OF so]
  have nt: "obj \<notin> set (todel s)" using assms(2) sd(5,6) by blast
  have "made_ok P s'"
  proof (rule made_ok_mono[of P s])
    show "made_ok P s" using assms(1) by (simp add: book_ok_def)
    show "known s' \<subseteq> known s" using assms(2) by (auto simp: known_def f(1-3))
    show "ncreating s \<le> ncreating s'" by (rule f(8))
  qed
  moreover have "sets_ok s'"
    unfolding sets_ok_def f(1-4)
  proof (intro conjI)
    show "distinct (removeAll obj (avail s))" using sd(1) by (simp add: distinct_removeAll)
    show "distinct (removeAll obj (using_objs s))" using sd(2) by (simp add: distinct_removeAll)
    show "distinct (set_add obj (todel s))" using sd(3) by simp
    show "set (removeAll obj (avail s)) \<inter> set (removeAll obj (using_objs s)) = {}"
      using sd(4) by auto
    show "(set (removeAll obj (avail s)) \<union> set (removeAll obj (using_objs s))) \<inter> set (set_add obj (todel s)) = {}"
      using sd(5,6) by auto
    show "dom ((uses_tab s)(obj := None)) = set (removeAll obj (avail s)) \<union> set (removeAll obj (using_objs s))"
      using sd(8) by auto
  qed
  moreover have "counts_ok s'"
  proof (cases "obj \<in> set (avail s)")
    case True
    then have nu: "obj \<notin> set (using_objs s)" by (rule sd(4))
    have "int (length (removeAll obj (avail s))) = int (length (avail s)) - 1"
      using sd(1) True by (rule length_removeAll_distinct)
    moreover have "removeAll obj (using_objs s) = using_objs s" using nu by simp
    moreover have "length (set_add obj (todel s)) = Suc (length (todel s))" using nt by (rule set_add_length)
    ultimately show ?thesis using book_okD(2)[OF assms(1)] by (simp add: counts_ok_def f)
  next
    case False
    with assms(2) have u: "obj \<in> set (using_objs s)" by simp
    have "int (length (removeAll obj (using_objs s))) = int (length (using_objs s)) - 1"
      using sd(2) u by (rule length_removeAll_distinct)
    moreover have "removeAll obj (avail s) = avail s" using False by simp
    moreover have "length (set_add obj (todel s)) = Suc (length (todel s))" using nt by (rule set_add_length)
    ultimately show ?thesis using book_okD(2)[OF assms(1)] by (simp add: counts_ok_def f)
  qed
  ultimately show ?thesis by (simp add: book_ok_def)
qed

lemma book_to_using:
  assumes "book_ok P s" "obj \<in> set (avail s)"
    and f: "avail s' = removeAll obj (avail s)" "using_objs s' = set_add obj (using_objs s)"
      "todel s' = todel s" "dom (uses_tab s') = dom (uses_tab s)"
      "nobjs s' = nobjs s" "ncreated s' = ncreated s"
      "ndestroys s' = ndestroys s" "ncreating s \<le> ncreating s'"
  shows "book_ok P s'" "int (length (using_objs s')) = int (length (using_objs s)) + 1"
proof -
  note so = book_okD(1)[OF assms(1)]
  note sd = sets_okD[OF so]
  have nu: "obj \<notin> set (using_objs s)" using assms(2) by (rule sd(4))
  have la: "int (length (removeAll obj (avail s))) = int (length (avail s)) - 1"
    using sd(1) assms(2) by (rule length_removeAll_distinct)
  have lu: "length (set_add obj (using_objs s)) = Suc (length (using_objs s))"
    using nu by (rule set_add_length)
  have "made_ok P s'"
  proof (rule made_ok_mono[of P s])
    show "made_ok P s" using assms(1) by (simp add: book_ok_def)
    show "known s' \<subseteq> known s" using assms(2) by (auto simp: known_def f(1-3))
    show "ncreating s \<le> ncreating s'" by (rule f(8))
  qed
  moreover have "sets_ok s'"
    unfolding sets_ok_def f(1-4)
  proof (intro conjI)
    show "distinct (removeAll obj (avail s))" using sd(1) by (simp add: distinct_removeAll)
    show "distinct (set_add obj (using_objs s))" using sd(2) by simp
    show "distinct (todel s)" by (rule sd(3))
    show "set (removeAll obj (avail s)) \<inter> set (set_add obj (using_objs s)) = {}"
      using sd(4) by auto
    show "(set (removeAll obj (avail s)) \<union> set (set_add obj (using_objs s))) \<inter> set (todel s) = {}"
      using sd(5,6) assms(2) by auto
    show "dom (uses_tab s) = set (removeAll obj (avail s)) \<union> set (set_add obj (using_objs s))"
      using sd(8) assms(2) by auto
  qed
  moreover have "counts_ok s'"
    using book_okD(2)[OF assms(1)] la lu by (simp add: counts_ok_def f)
  ultimately show "book_ok P s'" by (simp add: book_ok_def)
  show "int (length (using_objs s')) = int (length (using_objs s)) + 1" using lu by (simp add: f)
qed

lemma book_to_avail:
  assumes "book_ok P s" "obj \<in> set (using_objs s)"
    and f: "avail s' = set_add obj (avail s)" "using_objs s' = removeAll obj (using_objs s)"
      "todel s' = todel s" "dom (uses_tab s') = dom (uses_tab s)"
      "nobjs s' = nobjs s" "ncreated s' = ncreated s"
      "ndestroys s' = ndestroys s" "ncreating s \<le> ncreating s'"
  shows "book_ok P s'" "int (length (using_objs s')) = int (length (using_objs s)) - 1"
proof -
  note so = book_okD(1)[OF assms(1)]
  note sd = sets_okD[OF so]
  have na: "obj \<notin> set (avail s)" using assms(2) by (rule sd(7))
  have lu: "int (length (removeAll obj (using_objs s))) = int (length (using_objs s)) - 1"
    using sd(2) assms(2) by (rule length_removeAll_distinct)
  have la: "length (set_add obj (avail s)) = Suc (length (avail s))"
    using na by (rule set_add_length)
  have "made_ok P s'"
  proof (rule made_ok_mono[of P s])
    show "made_ok P s" using assms(1) by (simp add: book_ok_def)
    show "known s' \<subseteq> known s" using assms(2) by (auto simp: known_def f(1-3))
    show "ncreating s \<le> ncreating s'" by (rule f(8))
  qed
  moreover have "sets_ok s'"
    unfolding sets_ok_def f(1-4)
  proof (intro conjI)
    show "distinct (set_add obj (avail s))" using sd(1) by simp
    show "distinct (removeAll obj (using_objs s))" using sd(2) by (simp add: distinct_removeAll)
    show "distinct (todel s)" by (rule sd(3))
    show "set (set_add obj (avail s)) \<inter> set (removeAll obj (using_objs s)) = {}"
      using sd(4) by auto
    show "(set (set_add obj (avail s)) \<union> set (removeAll obj (using_objs s))) \<inter> set (todel s) = {}"
      using sd(5,6) assms(2) by auto
    show "dom (uses_tab s) = set (set_add obj (avail s)) \<union> set (removeAll obj (using_objs s))"
      using sd(8) assms(2) by auto
  qed
  moreover have "counts_ok s'"
    using book_okD(2)[OF assms(1)] la lu by (simp add: counts_ok_def f)
  ultimately show "book_ok P s'" by (simp add: book_ok_def)
  show "int (length (using_objs s')) = int (length (using_objs s)) - 1" using lu by (simp add: f)
qed

lemma book_drain:
  assumes "book_ok P s"
    and f: "avail s' = avail s" "using_objs s' = using_objs s"
      "todel s' = []" "dom (uses_tab s') = dom (uses_tab s)"
      "nobjs s' = nobjs s" "ncreated s' = ncreated s"
      "ndestroys s' = ndestroys s + int (length (todel s))" "ncreating s \<le> ncreating s'"
  shows "book_ok P s'"
proof -
  have "made_ok P s'"
  proof (rule made_ok_mono[of P s])
    show "made_ok P s" using assms(1) by (simp add: book_ok_def)
    show "known s' \<subseteq> known s" by (auto simp: known_def f(1-3))
    show "ncreating s \<le> ncreating s'" by (rule f(8))
  qed
  moreover have "sets_ok s'" using book_okD(1)[OF assms(1)] by (simp add: sets_ok_def f(1-4))
  moreover have "counts_ok s'" using book_okD(2)[OF assms(1)] by (simp add: counts_ok_def f(1-3,5-7))
  ultimately show ?thesis by (simp add: book_ok_def)
qed


lemma uses_grow_refl: "uses_grow P s s"
  by (auto simp: uses_grow_def split: option.splits)

lemma uses_grow_trans:
  assumes bk: "book_ok P s" and ff: "fresh_factory P"
    and a: "uses_grow P s s1" and b: "uses_grow P s1 s2"
  shows "uses_grow P s s2"
  unfolding uses_grow_def
proof (intro conjI allI impI)
  show "ncreating s \<le> ncreating s2" using a b by (simp add: uses_grow_def)
next
  fix obj u2 assume u2: "uses_tab s2 obj = Some u2"
  have n1: "ncreating s \<le> ncreating s1" and n2: "ncreating s1 \<le> ncreating s2"
    using a b by (simp_all add: uses_grow_def)
  from b u2 have c1: "case uses_tab s1 obj of Some u \<Rightarrow> uses u \<le> uses u2
         | None \<Rightarrow> (\<exists>k n. ncreating s1 < k \<and> k \<le> ncreating s2 \<and> fun_hook P k n = Returns obj)"
    unfolding uses_grow_def by blast
  show "case uses_tab s obj of Some u \<Rightarrow> uses u \<le> uses u2
         | None \<Rightarrow> (\<exists>k n. ncreating s < k \<and> k \<le> ncreating s2 \<and> fun_hook P k n = Returns obj)"
  proof (cases "uses_tab s1 obj")
    case (Some u1)
    with c1 have le: "uses u1 \<le> uses u2" by simp
    from a Some have c0: "case uses_tab s obj of Some u \<Rightarrow> uses u \<le> uses u1
         | None \<Rightarrow> (\<exists>k n. ncreating s < k \<and> k \<le> ncreating s1 \<and> fun_hook P k n = Returns obj)"
      unfolding uses_grow_def by blast
    show ?thesis
    proof (cases "uses_tab s obj")
      case None
      with c0 obtain k n where "ncreating s < k" "k \<le> ncreating s1" "fun_hook P k n = Returns obj"
        by auto
      then have "ncreating s < k \<and> k \<le> ncreating s2 \<and> fun_hook P k n = Returns obj"
        using n2 by simp
      then show ?thesis using None by auto
    next
      case (Some u0)
      with c0 le show ?thesis by simp
    qed
  next
    case None
    with c1 obtain k n where k: "ncreating s1 < k" "k \<le> ncreating s2" "fun_hook P k n = Returns obj"
      by auto
    show ?thesis
    proof (cases "uses_tab s obj")
      case None
      have "ncreating s < k \<and> k \<le> ncreating s2 \<and> fun_hook P k n = Returns obj"
        using k n1 by simp
      then show ?thesis using None by auto
    next
      case (Some u0)
      then have "obj \<in> dom (uses_tab s)" by auto
      then have "obj \<in> known s" using sets_okD(8)[OF book_okD(1)[OF bk]] by (auto simp: known_def)
      with book_okD(3)[OF bk] obtain k0 n0 where k0: "k0 \<le> ncreating s" "fun_hook P k0 n0 = Returns obj"
        unfolding made_ok_def by blast
      with ff k(3) have "k0 = k" unfolding fresh_factory_def by blast
      with k0(1) k(1) n1 show ?thesis by simp
    qed
  qed
qed

lemma good_refl: "book_ok P s \<Longrightarrow> good P s s"
  by (simp add: good_def uses_grow_refl)

lemma good_trans:
  assumes "book_ok P s" "fresh_factory P" "good P s s1" "good P s1 s2"
  shows "good P s s2"
  using assms uses_grow_trans[of P s s1 s2] by (simp add: good_def)

lemma goodD:
  "good P s s' \<Longrightarrow> book_ok P s'" "good P s s' \<Longrightarrow> cur_min_size s' = cur_min_size s"
  "good P s s' \<Longrightarrow> shutdown_flag s' = shutdown_flag s" "good P s s' \<Longrightarrow> uses_grow P s s'"
  by (simp_all add: good_def)

lemma uses_grow_same:
  assumes "uses_tab s' = uses_tab s" "ncreating s \<le> ncreating s'"
  shows "uses_grow P s s'"
  using assms by (auto simp: uses_grow_def split: option.splits)

lemma uses_grow_drop:
  assumes "uses_tab s' = (uses_tab s)(obj := None)" "ncreating s \<le> ncreating s'"
  shows "uses_grow P s s'"
  using assms by (auto simp: uses_grow_def split: option.splits if_splits)

lemma uses_grow_upd:
  assumes "uses_tab s' = (uses_tab s)(obj \<mapsto> u')" "uses_tab s obj = Some u" "uses u \<le> uses u'"
    "ncreating s \<le> ncreating s'"
  shows "uses_grow P s s'"
  using assms by (auto simp: uses_grow_def split: option.splits if_splits)


lemma made_ok_fresh:
  assumes "made_ok P s" "fresh_factory P" "fun_hook P (ncreating s + 1) n = Returns obj"
  shows "obj \<notin> known s"
proof
  assume "obj \<in> known s"
  with assms(1) obtain k m where km: "k \<le> ncreating s" "fun_hook P k m = Returns obj"
    unfolding made_ok_def by blast
  with assms(2,3) have "k = ncreating s + 1" unfolding fresh_factory_def by blast
  with km show False by simp
qed

lemma new_fail_fields:
  assumes "fun_hook P (ncreating s + 1) (ncreated s) = Raises"
  shows "pool_new P now s = (Inl FunError, s\<lparr>ncreating := ncreating s + 1\<rparr>)"
  using assms by (simp add: pool_new_def pool_create_def Let_def)

lemma new_ok_fields:
  assumes "fun_hook P (ncreating s + 1) (ncreated s) = Returns obj"
  shows "\<exists>s'. pool_new P now s = (Inr obj, s') \<and>
     avail s' = set_add obj (avail s) \<and> using_objs s' = using_objs s \<and> todel s' = todel s \<and>
     uses_tab s' = (uses_tab s)(obj \<mapsto> \<lparr>uses = 0, last_get = now, last_ret = now\<rparr>) \<and>
     nobjs s' = nobjs s + 1 \<and> ncreated s' = ncreated s + 1 \<and> ncreating s' = ncreating s + 1 \<and>
     ndestroys s' = ndestroys s \<and> sem s' = sem s \<and> cur_min_size s' = cur_min_size s \<and> shutdown_flag s' = shutdown_flag s"
  using assms by (simp add: pool_new_def pool_create_def Let_def)

lemma new_spec:
  assumes bk: "book_ok P s" and ff: "fresh_factory P"
  obtains (fail) e s' where "pool_new P now s = (Inl e, s')" "good P s s'" "sem s' = sem s"
      "using_objs s' = using_objs s" "avail s' = avail s" "todel s' = todel s" "nobjs s' = nobjs s"
  | (ok) obj s' where "pool_new P now s = (Inr obj, s')" "good P s s'" "sem s' = sem s"
      "using_objs s' = using_objs s" "avail s' = set_add obj (avail s)" "obj \<notin> set (avail s)"
      "todel s' = todel s" "nobjs s' = nobjs s + 1" "uses_tab s obj = None"
      "uses_tab s' = (uses_tab s)(obj \<mapsto> \<lparr>uses = 0, last_get = now, last_ret = now\<rparr>)"
proof (cases "fun_hook P (ncreating s + 1) (ncreated s)")
  case Raises
  let ?s' = "s\<lparr>ncreating := ncreating s + 1\<rparr>"
  have "book_ok P ?s'" by (rule book_same[OF bk]) simp_all
  moreover have "uses_grow P s ?s'" by (rule uses_grow_same) simp_all
  ultimately have "good P s ?s'" by (simp add: good_def)
  then show ?thesis using new_fail_fields[OF Raises, of now] by (intro fail[of FunError ?s']) simp_all
next
  case (Returns obj)
  from made_ok_fresh[OF book_okD(3)[OF bk] ff Returns] have nk: "obj \<notin> known s" .
  note sd = sets_okD[OF book_okD(1)[OF bk]]
  from new_ok_fields[OF Returns, of now] obtain s' where s': "pool_new P now s = (Inr obj, s')"
    and f: "avail s' = set_add obj (avail s)" "using_objs s' = using_objs s" "todel s' = todel s"
     "uses_tab s' = (uses_tab s)(obj \<mapsto> \<lparr>uses = 0, last_get = now, last_ret = now\<rparr>)"
     "nobjs s' = nobjs s + 1" "ncreated s' = ncreated s + 1" "ncreating s' = ncreating s + 1"
     "ndestroys s' = ndestroys s" "sem s' = sem s"
    and g: "cur_min_size s' = cur_min_size s" "shutdown_flag s' = shutdown_flag s"
    by blast
  have na: "obj \<notin> set (avail s)" and nu: "obj \<notin> set (using_objs s)" and nt: "obj \<notin> set (todel s)"
    using nk by (simp_all add: known_def)
  have 1: "sets_ok s'" unfolding sets_ok_def f
  proof (intro conjI)
    show "distinct (set_add obj (avail s))" using sd(1) by simp
    show "distinct (using_objs s)" by (rule sd(2))
    show "distinct (todel s)" by (rule sd(3))
    show "set (set_add obj (avail s)) \<inter> set (using_objs s) = {}" using sd(4) nu by auto
    show "(set (set_add obj (avail s)) \<union> set (using_objs s)) \<inter> set (todel s) = {}"
      using sd(5,6) nt by auto
    show "dom ((uses_tab s)(obj \<mapsto> \<lparr>uses = 0, last_get = now, last_ret = now\<rparr>)) =
        set (set_add obj (avail s)) \<union> set (using_objs s)" using sd(8) by auto
  qed
  have 2: "counts_ok s'" using book_okD(2)[OF bk] na
    by (simp add: counts_ok_def f set_add_length)
  have 4: "made_ok P s'" unfolding made_ok_def
  proof
    fix x assume "x \<in> known s'"
    then have "x = obj \<or> x \<in> known s" unfolding known_def f by auto
    then show "\<exists>k n. k \<le> ncreating s' \<and> fun_hook P k n = Returns x"
    proof
      assume "x = obj" with Returns show ?thesis unfolding f by blast
    next
      assume "x \<in> known s"
      with book_okD(3)[OF bk] obtain k n where "k \<le> ncreating s" "fun_hook P k n = Returns x"
        unfolding made_ok_def by blast
      then show ?thesis unfolding f by (intro exI[of _ k] exI[of _ n]) simp
    qed
  qed
  have nd: "uses_tab s obj = None" using sd(8) na nu by (auto simp: dom_def)
  have 5: "uses_grow P s s'" unfolding uses_grow_def
  proof (intro conjI allI impI)
    show "ncreating s \<le> ncreating s'" by (simp add: f)
  next
    fix x u' assume a: "uses_tab s' x = Some u'"
    show "case uses_tab s x of None \<Rightarrow> \<exists>k n. ncreating s < k \<and> k \<le> ncreating s' \<and> fun_hook P k n = Returns x
       | Some u \<Rightarrow> uses u \<le> uses u'"
    proof (cases "x = obj")
      case True
      have "ncreating s < ncreating s + 1 \<and> ncreating s + 1 \<le> ncreating s' \<and>
          fun_hook P (ncreating s + 1) (ncreated s) = Returns x"
        using Returns True by (simp add: f)
      then have "\<exists>k n. ncreating s < k \<and> k \<le> ncreating s' \<and> fun_hook P k n = Returns x"
        by blast
      then show ?thesis using nd True by simp
    next
      case False
      with a have "uses_tab s x = Some u'" by (simp add: f)
      then show ?thesis by simp
    qed
  qed
  have "good P s s'" using 1 2 4 5 g by (simp add: good_def book_ok_def)
  then show ?thesis using s' f na nt nd by (intro ok[of obj s']) simp_all
qed

lemma fold_destroy_fields [simp]:
  "avail (fold (pool_destroy P) xs s) = avail s"
  "using_objs (fold (pool_destroy P) xs s) = using_objs s"
  "todel (fold (pool_destroy P) xs s) = todel s"
  "uses_tab (fold (pool_destroy P) xs s) = uses_tab s"
  "sem (fold (pool_destroy P) xs s) = sem s"
  "nobjs (fold (pool_destroy P) xs s) = nobjs s"
  "ncreated (fold (pool_destroy P) xs s) = ncreated s"
  "ncreating (fold (pool_destroy P) xs s) = ncreating s"
  "ndestroys (fold (pool_destroy P) xs s) = ndestroys s"
  "cur_min_size (fold (pool_destroy P) xs s) = cur_min_size s"
  "shutdown_flag (fold (pool_destroy P) xs s) = shutdown_flag s"
  by (induction xs arbitrary: s; simp add: pool_destroy_def)+

lemma empty_fields:
  "avail (pool_empty P s) = avail s"
  "using_objs (pool_empty P s) = using_objs s"
  "todel (pool_empty P s) = []"
  "uses_tab (pool_empty P s) = uses_tab s"
  "sem (pool_empty P s) = sem s"
  "nobjs (pool_empty P s) = nobjs s"
  "ncreated (pool_empty P s) = ncreated s"
  "ncreating (pool_empty P s) = ncreating s"
  "ndestroys (pool_empty P s) = ndestroys s + int (length (todel s))"
  "cur_min_size (pool_empty P s) = cur_min_size s"
  "shutdown_flag (pool_empty P s) = shutdown_flag s"
  by (simp_all add: pool_empty_def Let_def)

lemma empty_spec:
  assumes bk: "book_ok P s"
  shows "good P s (pool_empty P s)"
proof -
  have "book_ok P (pool_empty P s)" by (rule book_drain[OF bk]) (simp_all add: empty_fields)
  moreover have "uses_grow P s (pool_empty P s)" by (rule uses_grow_same) (simp_all add: empty_fields)
  ultimately show ?thesis by (simp add: good_def empty_fields)
qed


lemma good_frame:
  assumes "book_ok P s" "avail s' = avail s" "using_objs s' = using_objs s" "todel s' = todel s"
    "uses_tab s' = uses_tab s" "nobjs s' = nobjs s" "ncreated s' = ncreated s"
    "ndestroys s' = ndestroys s" "ncreating s' = ncreating s"
    "cur_min_size s' = cur_min_size s" "shutdown_flag s' = shutdown_flag s"
  shows "good P s s'"
proof -
  have "book_ok P s'" by (rule book_same[OF assms(1)]) (simp_all add: assms)
  moreover have "uses_grow P s s'" by (rule uses_grow_same) (simp_all add: assms)
  ultimately show ?thesis by (simp add: good_def assms)
qed

lemma to_del_fields:
  "avail (to_del obj s) = removeAll obj (avail s)"
  "using_objs (to_del obj s) = removeAll obj (using_objs s)"
  "todel (to_del obj s) = set_add obj (todel s)"
  "uses_tab (to_del obj s) = (uses_tab s)(obj := None)"
  "nobjs (to_del obj s) =
     (if uses_tab s obj \<noteq> None \<or> obj \<in> set (avail s) \<or> obj \<in> set (using_objs s)
      then nobjs s - 1 else nobjs s)"
  "ncreated (to_del obj s) = ncreated s"
  "ncreating (to_del obj s) = ncreating s"
  "ndestroys (to_del obj s) = ndestroys s"
  "sem (to_del obj s) = sem s"
  "cur_min_size (to_del obj s) = cur_min_size s"
  "shutdown_flag (to_del obj s) = shutdown_flag s"
  by (simp_all add: to_del_def pool_out_def Let_def)

lemma to_del_spec:
  assumes bk: "book_ok P s" and m: "obj \<in> set (avail s) \<union> set (using_objs s)"
  shows "good P s (to_del obj s)"
proof -
  have n: "nobjs (to_del obj s) = nobjs s - 1" using m by (auto simp: to_del_fields)
  have "book_ok P (to_del obj s)"
    by (rule book_retire[OF bk m]) (simp_all add: to_del_fields(1-4,6-8) n)
  moreover have "uses_grow P s (to_del obj s)"
    by (rule uses_grow_drop[of _ _ obj]) (simp_all add: to_del_fields)
  ultimately show ?thesis by (simp add: good_def to_del_fields)
qed

lemma sem_okD:
  assumes "sem_ok P s" "sem s = Some b"
  shows "initial_value b = max_size P" "0 \<le> sem_value b"
    "sem_value b + int (length (using_objs s)) = max_size P" "max_size P \<noteq> 0"
  using assms by (simp_all add: sem_ok_def)

lemma sem_ok_None: "sem s = None \<Longrightarrow> sem_ok P s \<longleftrightarrow> max_size P = 0"
  by (simp add: sem_ok_def)

lemma sem_ok_same:
  assumes "sem_ok P s" "sem s' = sem s" "using_objs s' = using_objs s"
  shows "sem_ok P s'"
  using assms by (simp add: sem_ok_def split: option.splits)

lemma sem_ok_shift:
  assumes "sem_ok P s" "sem s = Some b" "sem s' = Some (b\<lparr>sem_value := v\<rparr>)"
    "v + int (length (using_objs s')) = sem_value b + int (length (using_objs s))" "0 \<le> v"
  shows "sem_ok P s'"
  using assms by (simp add: sem_ok_def)

lemma pool_invD: "pool_inv P s \<Longrightarrow> book_ok P s" "pool_inv P s \<Longrightarrow> sem_ok P s"
  by (simp_all add: pool_inv_def)

lemma sem_upd_book:
  assumes "book_ok P s"
  shows "good P s (s\<lparr>sem := x\<rparr>)"
  by (rule good_frame[OF assms]) simp_all

lemma bsem_roundtrip: "(b\<lparr>sem_value := sem_value b - 1\<rparr>)\<lparr>sem_value := sem_value b - 1 + 1\<rparr> = b"
  by simp

lemma fill_loop_spec:
  assumes ff: "fresh_factory P"
  shows "pool_inv P s \<Longrightarrow> \<exists>s'. fill_loop P now n s = (Inr (), s') \<and> pool_inv P s' \<and> good P s s'
     \<and> sem s' = sem s \<and> using_objs s' = using_objs s \<and> todel s' = todel s"
proof (induction n arbitrary: s)
  case 0
  then show ?case by (simp add: good_refl pool_invD)
next
  case (Suc n)
  note inv = Suc.prems
  note bk = pool_invD(1)[OF inv] and so = pool_invD(2)[OF inv]
  show ?case
  proof (cases "sem s")
    case None
    from new_spec[OF bk ff, of now] obtain r s1 where
      n: "pool_new P now s = (r, s1)" and g: "good P s s1" and f: "sem s1 = sem s"
        "using_objs s1 = using_objs s" "todel s1 = todel s"
      by (cases, blast+)
    define s2 where "s2 = (case r of Inl e \<Rightarrow> log_add New_object_failed s1 | Inr obj \<Rightarrow> s1)"
    have g12: "good P s1 s2" unfolding s2_def
      by (cases r) (auto intro!: good_frame goodD(1)[OF g] good_refl)
    have f2: "sem s2 = sem s" "using_objs s2 = using_objs s" "todel s2 = todel s"
      unfolding s2_def using f by (cases r; simp)+
    have g2: "good P s s2" by (rule good_trans[OF bk ff g g12])
    have inv2: "pool_inv P s2" using goodD(1)[OF g2] sem_ok_same[OF so f2(1,2)]
      by (simp add: pool_inv_def)
    from Suc.IH[OF inv2] obtain s' where s': "fill_loop P now n s2 = (Inr (), s')"
      "pool_inv P s'" "good P s2 s'" "sem s' = sem s2" "using_objs s' = using_objs s2"
      "todel s' = todel s2" by blast
    have "fill_loop P now (Suc n) s = fill_loop P now n s2"
      using None n f2(1) by (cases r) (simp_all add: s2_def pool_sem_release_def)
    moreover have "good P s s'" by (rule good_trans[OF bk ff g2 s'(3)])
    ultimately show ?thesis using s' f2 by simp
  next
    case (Some b)
    note sd = sem_okD[OF so Some]
    show ?thesis
    proof (cases "0 < sem_value b")
      case False
      then have "fill_loop P now (Suc n) s = (Inr (), s)" using Some
        by (simp add: sem_try_acquire_def)
      then show ?thesis using inv bk by (simp add: good_refl)
    next
      case True
      define b' where "b' = b\<lparr>sem_value := sem_value b - 1\<rparr>"
      define s0 where "s0 = s\<lparr>sem := Some b'\<rparr>"
      have g0: "good P s s0" unfolding s0_def by (rule sem_upd_book[OF bk])
      from new_spec[OF goodD(1)[OF g0] ff, of now] obtain r s1 where
        n: "pool_new P now s0 = (r, s1)" and g: "good P s0 s1" and f: "sem s1 = sem s0"
        "using_objs s1 = using_objs s0" "todel s1 = todel s0"
        by (cases, blast+)
      define s2 where "s2 = (case r of Inl e \<Rightarrow> log_add New_object_failed s1 | Inr obj \<Rightarrow> s1)"
      have g12: "good P s1 s2" unfolding s2_def
        by (cases r) (auto intro!: good_frame goodD(1)[OF g] good_refl)
      have f2: "sem s2 = Some b'" "using_objs s2 = using_objs s" "todel s2 = todel s"
        unfolding s2_def using f by (cases r; simp add: s0_def)+
      define s3 where "s3 = s2\<lparr>sem := Some b\<rparr>"
      have rel: "pool_sem_release s2 = Inr s3"
        using f2(1) sd(1,3) by (simp add: pool_sem_release_def sem_release_def b'_def s3_def)
      have g23: "good P s2 s3" unfolding s3_def by (rule sem_upd_book[OF goodD(1)[OF g12]])
      have g3: "good P s s3"
        using good_trans[OF bk ff good_trans[OF bk ff good_trans[OF bk ff g0 g] g12] g23] .
      have f3: "sem s3 = sem s" "using_objs s3 = using_objs s" "todel s3 = todel s"
        using f2 Some by (simp_all add: s3_def)
      have inv3: "pool_inv P s3" using goodD(1)[OF g3] sem_ok_same[OF so f3(1,2)]
        by (simp add: pool_inv_def)
      from Suc.IH[OF inv3] obtain s' where s': "fill_loop P now n s3 = (Inr (), s')"
        "pool_inv P s'" "good P s3 s'" "sem s' = sem s3" "using_objs s' = using_objs s3"
        "todel s' = todel s3" by blast
      have "fill_loop P now (Suc n) s = fill_loop P now n s3"
        using Some True n rel
        by (cases r) (simp_all add: sem_try_acquire_def b'_def[symmetric] s0_def[symmetric] s2_def)
      moreover have "good P s s'" by (rule good_trans[OF bk ff g3 s'(3)])
      ultimately show ?thesis using s' f3 by simp
    qed
  qed
qed

lemma fill_spec:
  assumes ff: "fresh_factory P" and inv: "pool_inv P s"
  shows "\<exists>s'. pool_fill P now s = (Inr (), s') \<and> pool_inv P s' \<and> good P s s'
     \<and> sem s' = sem s \<and> using_objs s' = using_objs s \<and> todel s' = todel s"
proof (cases "nobjs s < cur_min_size s")
  case True
  then show ?thesis using fill_loop_spec[OF ff inv] by (simp add: pool_fill_def)
next
  case False
  then show ?thesis using inv by (simp add: pool_fill_def good_refl pool_invD)
qed

subsection \<open>Releasing a token, borrowing and returning\<close>

lemma good_inv_same:
  assumes "pool_inv P s" "good P s s'" "sem s' = sem s" "using_objs s' = using_objs s"
  shows "pool_inv P s'"
  using goodD(1)[OF assms(2)] sem_ok_same[OF pool_invD(2)[OF assms(1)] assms(3,4)]
  by (simp add: pool_inv_def)

lemma sem_release_spec:
  assumes so: "sem_ok P s" and bk: "book_ok P s1"
    and f: "sem s1 = sem s" "int (length (using_objs s1)) = int (length (using_objs s)) - 1"
  shows "\<exists>s2. pool_sem_release s1 = Inr s2 \<and> pool_inv P s2 \<and> good P s1 s2 \<and>
     avail s2 = avail s1 \<and> using_objs s2 = using_objs s1 \<and> todel s2 = todel s1 \<and>
     uses_tab s2 = uses_tab s1 \<and> nobjs s2 = nobjs s1 \<and>
     (case sem s of None \<Rightarrow> sem s2 = None
      | Some b \<Rightarrow> sem s2 = Some (b\<lparr>sem_value := sem_value b + 1\<rparr>))"
proof (cases "sem s")
  case None
  then have r: "pool_sem_release s1 = Inr s1" using f(1) by (simp add: pool_sem_release_def)
  have "sem_ok P s1" using so None f(1) by (simp add: sem_ok_def)
  then show ?thesis using r bk None f(1) by (simp add: pool_inv_def good_refl)
next
  case (Some b)
  note sd = sem_okD[OF so Some]
  have lt: "sem_value b + 1 \<le> initial_value b" using sd(1,3) f(2) by simp
  define s2 where "s2 = s1\<lparr>sem := Some (b\<lparr>sem_value := sem_value b + 1\<rparr>)\<rparr>"
  have fs: "avail s2 = avail s1" "using_objs s2 = using_objs s1" "todel s2 = todel s1"
     "uses_tab s2 = uses_tab s1" "nobjs s2 = nobjs s1" "sem s2 = Some (b\<lparr>sem_value := sem_value b + 1\<rparr>)"
    by (simp_all add: s2_def)
  have r: "pool_sem_release s1 = Inr s2"
    using Some f(1) lt by (simp add: pool_sem_release_def sem_release_def s2_def)
  have g: "good P s1 s2" unfolding s2_def by (rule sem_upd_book[OF bk])
  have "sem_ok P s2" using sd f(2) by (simp add: sem_ok_def fs)
  then have "pool_inv P s2" using goodD(1)[OF g] by (simp add: pool_inv_def)
  then show ?thesis using r g Some fs by simp
qed

lemma borrow_spec:
  assumes inv: "pool_inv P s"
  shows "\<exists>r s'. pool_borrow obj s = (Inr r, s') \<and> pool_inv P s' \<and> good P s s' \<and> todel s' = todel s \<and>
      (r \<longrightarrow> obj \<in> set (avail s) \<and> obj \<in> set (using_objs s')) \<and>
      (\<not> r \<longrightarrow> avail s' = avail s \<and> using_objs s' = using_objs s \<and> sem s' = sem s)"
proof -
  note bk = pool_invD(1)[OF inv] and so = pool_invD(2)[OF inv]
  have same: "pool_borrow obj s = (Inr False, s) \<Longrightarrow> ?thesis"
    using inv bk by (intro exI[of _ False] exI[of _ s]) (simp add: good_refl)
  show ?thesis
  proof (cases "sem s")
    case None
    show ?thesis
    proof (cases "obj \<in> set (avail s)")
      case True
      define s' where "s' = s\<lparr>avail := removeAll obj (avail s),
                using_objs := set_add obj (using_objs s),
                nborrows := nborrows s + 1\<rparr>"
      have r: "pool_borrow obj s = (Inr True, s')" using None True by (simp add: pool_borrow_def s'_def)
      have b: "book_ok P s'" by (rule book_to_using(1)[OF bk True]) (simp_all add: s'_def)
      have u: "uses_grow P s s'" by (rule uses_grow_same) (simp_all add: s'_def)
      have fs: "todel s' = todel s" "obj \<in> set (using_objs s')" "cur_min_size s' = cur_min_size s"
        "shutdown_flag s' = shutdown_flag s" by (simp_all add: s'_def)
      have "sem_ok P s'" using so None by (simp add: sem_ok_def s'_def)
      then show ?thesis using r b u True fs
        by (intro exI[of _ True] exI[of _ s']) (simp add: pool_inv_def good_def)
    next
      case False
      then have "pool_borrow obj s = (Inr False, s)" using None
        by (simp add: pool_borrow_def pool_sem_release_def)
      then show ?thesis by (rule same)
    qed
  next
    case (Some b)
    note sd = sem_okD[OF so Some]
    show ?thesis
    proof (cases "0 < sem_value b")
      case False
      then have "pool_borrow obj s = (Inr False, s)" using Some
        by (simp add: pool_borrow_def sem_try_acquire_def)
      then show ?thesis by (rule same)
    next
      case pos: True
      define b' where "b' = b\<lparr>sem_value := sem_value b - 1\<rparr>"
      show ?thesis
      proof (cases "obj \<in> set (avail s)")
        case True
        define s' where "s' = s\<lparr>sem := Some b', avail := removeAll obj (avail s),
                using_objs := set_add obj (using_objs s),
                nborrows := nborrows s + 1\<rparr>"
        have r: "pool_borrow obj s = (Inr True, s')" using Some True pos
          by (simp add: pool_borrow_def s'_def sem_try_acquire_def b'_def)
        have b: "book_ok P s'" by (rule book_to_using(1)[OF bk True]) (simp_all add: s'_def)
        have l: "int (length (using_objs s')) = int (length (using_objs s)) + 1"
          by (rule book_to_using(2)[OF bk True]) (simp_all add: s'_def)
        have u: "uses_grow P s s'" by (rule uses_grow_same) (simp_all add: s'_def)
        have fs: "todel s' = todel s" "obj \<in> set (using_objs s')" "cur_min_size s' = cur_min_size s"
          "shutdown_flag s' = shutdown_flag s" "sem s' = Some (b\<lparr>sem_value := sem_value b - 1\<rparr>)"
          by (simp_all add: s'_def b'_def)
        have "sem_ok P s'"
          by (rule sem_ok_shift[OF so Some fs(5)]) (use l pos in simp_all)
        then show ?thesis using r b u True fs
          by (intro exI[of _ True] exI[of _ s']) (simp add: pool_inv_def good_def)
      next
        case False
        have e: "s\<lparr>sem := Some b\<rparr> = s" using Some by (cases s) simp
        have "pool_sem_release (s\<lparr>sem := Some b'\<rparr>) = Inr (s\<lparr>sem := Some b\<rparr>)"
          using sd(1,3) by (simp add: pool_sem_release_def sem_release_def b'_def)
        then have "pool_borrow obj s = (Inr False, s)" using Some False pos e
          by (simp add: pool_borrow_def sem_try_acquire_def b'_def)
        then show ?thesis by (rule same)
      qed
    qed
  qed
qed

lemma return_spec:
  assumes inv: "pool_inv P s" and ff: "fresh_factory P"
  shows "\<exists>r s'. pool_return obj s = (r, s') \<and> pool_inv P s' \<and> good P s s' \<and> todel s' = todel s \<and>
     (obj \<in> set (using_objs s) \<longrightarrow> r = Inr () \<and> avail s' = set_add obj (avail s) \<and>
        using_objs s' = removeAll obj (using_objs s))"
proof (cases "obj \<in> set (using_objs s)")
  case False
  then show ?thesis using inv by (simp add: pool_return_def good_refl pool_invD)
next
  case True
  note bk = pool_invD(1)[OF inv] and so = pool_invD(2)[OF inv]
  define s1 where "s1 = s\<lparr>using_objs := removeAll obj (using_objs s),
                    avail := set_add obj (avail s),
                    nreturns := nreturns s + 1\<rparr>"
  have fs: "avail s1 = set_add obj (avail s)" "using_objs s1 = removeAll obj (using_objs s)"
    "todel s1 = todel s" "sem s1 = sem s" "cur_min_size s1 = cur_min_size s"
    "shutdown_flag s1 = shutdown_flag s"
    by (simp_all add: s1_def)
  have b: "book_ok P s1" by (rule book_to_avail(1)[OF bk True]) (simp_all add: s1_def)
  have l: "int (length (using_objs s1)) = int (length (using_objs s)) - 1"
    by (rule book_to_avail(2)[OF bk True]) (simp_all add: s1_def)
  have u: "uses_grow P s s1" by (rule uses_grow_same) (simp_all add: s1_def)
  have g1: "good P s s1" using b u fs by (simp add: good_def)
  from sem_release_spec[OF so b fs(4) l] obtain s2 where s2: "pool_sem_release s1 = Inr s2"
    "pool_inv P s2" "good P s1 s2" "avail s2 = avail s1" "using_objs s2 = using_objs s1"
    "todel s2 = todel s1"
    by blast
  have "pool_return obj s = (Inr (), s2)" using True s2(1)
    by (simp add: pool_return_def Let_def s1_def[symmetric])
  moreover have "good P s s2" by (rule good_trans[OF bk ff g1 s2(3)])
  ultimately show ?thesis using s2 True fs by simp
qed

subsection \<open>Acquire\<close>

lemma get_pop_spec:
  assumes bk: "book_ok P s" and ne: "avail s \<noteq> []"
  shows "\<exists>obj s' u. get_pop now pick s = (Inr obj, s') \<and> obj \<in> set (avail s) \<and> good P s s' \<and>
     sem s' = sem s \<and> int (length (using_objs s')) = int (length (using_objs s)) + 1 \<and>
     obj \<in> set (using_objs s') \<and> obj \<notin> set (avail s') \<and> todel s' = todel s \<and>
     uses_tab s obj = Some u \<and>
     uses_tab s' = (uses_tab s)(obj \<mapsto> u\<lparr>uses := uses u + 1, last_get := now\<rparr>)"
proof -
  define obj where "obj = avail s ! (pick mod length (avail s))"
  have m: "obj \<in> set (avail s)" unfolding obj_def using ne by simp
  note sd = sets_okD[OF book_okD(1)[OF bk]]
  have "obj \<in> dom (uses_tab s)" using sd(8) m by simp
  then obtain u where u: "uses_tab s obj = Some u" by auto
  define s' where "s' = s\<lparr>avail := removeAll obj (avail s),
                     using_objs := set_add obj (using_objs s),
                     nuses := nuses s + 1,
                     uses_tab := (uses_tab s)(obj \<mapsto> u\<lparr>uses := uses u + 1, last_get := now\<rparr>)\<rparr>"
  have fs: "avail s' = removeAll obj (avail s)" "using_objs s' = set_add obj (using_objs s)"
    "todel s' = todel s" "sem s' = sem s" "cur_min_size s' = cur_min_size s"
    "shutdown_flag s' = shutdown_flag s" "nobjs s' = nobjs s" "ncreated s' = ncreated s"
    "ndestroys s' = ndestroys s" "ncreating s' = ncreating s"
    "uses_tab s' = (uses_tab s)(obj \<mapsto> u\<lparr>uses := uses u + 1, last_get := now\<rparr>)"
    by (simp_all add: s'_def)
  have r: "get_pop now pick s = (Inr obj, s')"
    using ne u by (simp add: get_pop_def Let_def obj_def[symmetric] s'_def)
  have d: "dom (uses_tab s') = dom (uses_tab s)" using u by (auto simp: fs)
  have b: "book_ok P s'" by (rule book_to_using(1)[OF bk m fs(1,2,3) d]) (simp_all add: fs)
  have l: "int (length (using_objs s')) = int (length (using_objs s)) + 1"
    by (rule book_to_using(2)[OF bk m fs(1,2,3) d]) (simp_all add: fs)
  have g: "uses_grow P s s'" by (rule uses_grow_upd[OF fs(11) u]) (simp_all add: fs)
  have "good P s s'" using b g fs by (simp add: good_def)
  then show ?thesis using r m l fs u by simp
qed

lemma get_token_spec:
  assumes inv: "pool_inv P s"
  shows "(\<exists>e. get_token P tmo s = Inl e \<and> e \<in> {TimeOut, Blocked}) \<or>
     (\<exists>s1. get_token P tmo s = Inr s1 \<and> good P s s1 \<and> avail s1 = avail s \<and>
        using_objs s1 = using_objs s \<and> todel s1 = todel s \<and> uses_tab s1 = uses_tab s \<and>
        (case sem s of None \<Rightarrow> sem s1 = None
         | Some b \<Rightarrow> 0 < sem_value b \<and> sem s1 = Some (b\<lparr>sem_value := sem_value b - 1\<rparr>)))"
proof (cases "sem s")
  case None
  then show ?thesis using inv by (simp add: get_token_def good_refl pool_invD)
next
  case (Some b)
  show ?thesis
  proof (cases "0 < sem_value b")
    case True
    have "good P s (s\<lparr>sem := Some (b\<lparr>sem_value := sem_value b - 1\<rparr>)\<rparr>)"
      by (rule sem_upd_book[OF pool_invD(1)[OF inv]])
    then show ?thesis using Some True by (simp add: get_token_def sem_try_acquire_def)
  next
    case False
    then show ?thesis using Some
      by (simp add: get_token_def sem_try_acquire_def split: option.splits)
  qed
qed

lemma holding_same:
  assumes "holding P s s1" "sem s2 = sem s1" "using_objs s2 = using_objs s1"
  shows "holding P s s2"
  using assms by (simp add: holding_def split: option.splits)

lemma holding_release:
  assumes so: "sem_ok P s" and h: "holding P s s1" and bk: "book_ok P s1"
  shows "\<exists>s2. pool_sem_release s1 = Inr s2 \<and> good P s1 s2 \<and> sem s2 = sem s \<and>
      using_objs s2 = using_objs s \<and> avail s2 = avail s1 \<and> todel s2 = todel s1"
proof (cases "sem s")
  case None
  then have "sem s1 = None" using h by (simp add: holding_def)
  then have "pool_sem_release s1 = Inr s1" by (simp add: pool_sem_release_def)
  then show ?thesis using h None bk by (simp add: holding_def good_refl)
next
  case (Some b)
  note sd = sem_okD[OF so Some]
  have s1: "sem s1 = Some (b\<lparr>sem_value := sem_value b - 1\<rparr>)" and pos: "0 < sem_value b"
    and u: "using_objs s1 = using_objs s"
    using h Some by (simp_all add: holding_def)
  define s2 where "s2 = s1\<lparr>sem := Some b\<rparr>"
  have "pool_sem_release s1 = Inr s2" using s1 sd(1,3)
    by (simp add: pool_sem_release_def sem_release_def s2_def)
  moreover have "good P s1 s2" unfolding s2_def by (rule sem_upd_book[OF bk])
  moreover have "sem s2 = sem s" "using_objs s2 = using_objs s" "avail s2 = avail s1" "todel s2 = todel s1"
    using Some u by (simp_all add: s2_def)
  ultimately show ?thesis by simp
qed

lemma holding_taken:
  assumes so: "sem_ok P s" and h: "holding P s s1"
    and f: "sem s' = sem s1" "int (length (using_objs s')) = int (length (using_objs s1)) + 1"
  shows "sem_ok P s'"
proof (cases "sem s")
  case None
  then show ?thesis using so h f by (simp add: holding_def sem_ok_def)
next
  case (Some b)
  then show ?thesis using so h f by (simp add: holding_def sem_ok_def)
qed

lemma get_ensure_spec:
  assumes ff: "fresh_factory P" and so: "sem_ok P s" and h: "holding P s s1" and bk: "book_ok P s1"
  shows "(\<exists>e s2. get_ensure P now s1 = (Some e, s2) \<and> good P s1 s2 \<and> sem s2 = sem s \<and>
            using_objs s2 = using_objs s \<and> todel s2 = todel s1) \<or>
         (\<exists>s2. get_ensure P now s1 = (None, s2) \<and> good P s1 s2 \<and> holding P s s2 \<and> avail s2 \<noteq> [] \<and>
            todel s2 = todel s1 \<and>
            ((avail s1 \<noteq> [] \<and> avail s2 = avail s1 \<and> uses_tab s2 = uses_tab s1) \<or>
             (avail s1 = [] \<and> (\<exists>obj. avail s2 = [obj] \<and> uses_tab s1 obj = None \<and>
                uses_tab s2 = (uses_tab s1)(obj \<mapsto> \<lparr>uses = 0, last_get = now, last_ret = now\<rparr>)))))"
proof (cases "avail s1 = []")
  case False
  then show ?thesis using h bk by (simp add: get_ensure_def good_refl)
next
  case True
  show ?thesis
  proof (rule new_spec[OF bk ff, of now], goal_cases)
    case fail: (1 e s2)
    define s3 where "s3 = log_add Object_creation_failed s2"
    have g23: "good P s2 s3" unfolding s3_def
      by (rule good_frame[OF goodD(1)[OF fail(2)]]) simp_all
    have h3: "holding P s s3" by (rule holding_same[OF h]) (simp_all add: s3_def fail(3,4))
    from holding_release[OF so h3 goodD(1)[OF g23]] obtain s4 where
      s4: "pool_sem_release s3 = Inr s4" "good P s3 s4" "sem s4 = sem s"
      "using_objs s4 = using_objs s" "avail s4 = avail s3" "todel s4 = todel s3" by blast
    have "get_ensure P now s1 = (Some e, s4)" using True fail(1) s4(1)
      by (simp add: get_ensure_def Let_def s3_def[symmetric])
    moreover have "good P s1 s4"
      using good_trans[OF bk ff good_trans[OF bk ff fail(2) g23] s4(2)] .
    moreover have "todel s4 = todel s1" using s4(6) fail(6) by (simp add: s3_def)
    ultimately show ?thesis using s4 by simp
  next
    case ok: (2 obj s2)
    have "get_ensure P now s1 = (None, s2)" using True ok(1) by (simp add: get_ensure_def)
    moreover have "holding P s s2" by (rule holding_same[OF h]) (simp_all add: ok(3,4))
    moreover have "avail s2 = [obj]" using ok(5) True by (simp add: set_add_def)
    ultimately show ?thesis using ok(2,7,9,10) True by simp
  qed
qed


lemma get_spec:
  assumes ff: "fresh_factory P" and inv: "pool_inv P s"
  shows "\<exists>r s'. pool_get P now tmo pick s = (r, s') \<and> pool_inv P s' \<and> good P s s' \<and>
     todel s' = todel s \<and>
     (\<forall>obj. r = Inr obj \<longrightarrow> obj \<in> set (using_objs s') \<and> obj \<notin> set (avail s') \<and>
        (\<exists>u'. uses_tab s' obj = Some u' \<and>
           (case uses_tab s obj of None \<Rightarrow> uses u' = 1 | Some u \<Rightarrow> uses u' = uses u + 1)))"
proof -
  note bk = pool_invD(1)[OF inv] and so = pool_invD(2)[OF inv]
  have same: "pool_get P now tmo pick s = (Inl e, s) \<Longrightarrow> ?thesis" for e
    using inv bk by (simp add: good_refl)
  show ?thesis
  proof (cases "shutdown_flag s")
    case True
    then have "pool_get P now tmo pick s = (Inl PoolException, s)" by (simp add: pool_get_def)
    then show ?thesis by (rule same)
  next
    case ns: False
    from get_token_spec[OF inv, of tmo] show ?thesis
    proof (elim disjE exE conjE)
      fix e assume "get_token P tmo s = Inl e"
      then have "pool_get P now tmo pick s = (Inl e, s)" using ns by (simp add: pool_get_def)
      then show ?thesis by (rule same)
    next
      fix s1 assume t: "get_token P tmo s = Inr s1" and g1: "good P s s1"
        and f1: "avail s1 = avail s" "using_objs s1 = using_objs s" "todel s1 = todel s"
          "uses_tab s1 = uses_tab s"
        and c1: "case sem s of None \<Rightarrow> sem s1 = None
         | Some b \<Rightarrow> 0 < sem_value b \<and> sem s1 = Some (b\<lparr>sem_value := sem_value b - 1\<rparr>)"
      have h1: "holding P s s1" using f1(2) c1 by (simp add: holding_def)
      note bk1 = goodD(1)[OF g1]
      from get_ensure_spec[OF ff so h1 bk1, of now] consider
        (err) e s2 where "get_ensure P now s1 = (Some e, s2)" "good P s1 s2"
          "sem s2 = sem s" "using_objs s2 = using_objs s" "todel s2 = todel s1"
        | (ok) s2 where "get_ensure P now s1 = (None, s2)" "good P s1 s2"
          "holding P s s2" "avail s2 \<noteq> []" "todel s2 = todel s1"
          "(avail s1 \<noteq> [] \<and> avail s2 = avail s1 \<and> uses_tab s2 = uses_tab s1) \<or>
             (avail s1 = [] \<and> (\<exists>obj. avail s2 = [obj] \<and> uses_tab s1 obj = None \<and>
                uses_tab s2 = (uses_tab s1)(obj \<mapsto> \<lparr>uses = 0, last_get = now, last_ret = now\<rparr>)))"
        by blast
      then show ?thesis
      proof cases
        case (err e s2)
        note e = err(1) and g2 = err(2) and f2 = err(3-5)
        have r: "pool_get P now tmo pick s = (Inl e, s2)" using ns t e by (simp add: pool_get_def)
        have g: "good P s s2" by (rule good_trans[OF bk ff g1 g2])
        have "pool_inv P s2" by (rule good_inv_same[OF inv g f2(1,2)])
        then show ?thesis using r g f2 f1 by simp
      next
        case (ok s2)
        note e = ok(1) and g2 = ok(2) and h2 = ok(3) and ne = ok(4) and f2 = ok(5) and alt = ok(6)
        note bk2 = goodD(1)[OF g2]
        from get_pop_spec[OF bk2 ne, of now pick] obtain obj s3 u where
          p: "get_pop now pick s2 = (Inr obj, s3)" and m: "obj \<in> set (avail s2)"
          and g3: "good P s2 s3" and f3: "sem s3 = sem s2"
            "int (length (using_objs s3)) = int (length (using_objs s2)) + 1"
            "obj \<in> set (using_objs s3)" "obj \<notin> set (avail s3)" "todel s3 = todel s2"
          and u: "uses_tab s2 obj = Some u"
            "uses_tab s3 = (uses_tab s2)(obj \<mapsto> u\<lparr>uses := uses u + 1, last_get := now\<rparr>)"
          by blast
        define s4 where "s4 = guarded_hook (getter P) Getter_exception obj s3"
        have r: "pool_get P now tmo pick s = (Inr obj, s4)" using ns t e p
          by (simp add: pool_get_def s4_def)
        have g34: "good P s3 s4" unfolding s4_def
          by (rule good_frame[OF goodD(1)[OF g3]]) simp_all
        have g: "good P s s4"
          using good_trans[OF bk ff good_trans[OF bk ff good_trans[OF bk ff g1 g2] g3] g34] .
        have so4: "sem_ok P s4" by (rule holding_taken[OF so h2]) (simp_all add: s4_def f3)
        have inv4: "pool_inv P s4" using goodD(1)[OF g] so4 by (simp add: pool_inv_def)
        have ua: "uses_tab s4 obj = Some (u\<lparr>uses := uses u + 1, last_get := now\<rparr>)"
          by (simp add: s4_def u(2))
        have "case uses_tab s obj of None \<Rightarrow> uses u = 0 | Some u0 \<Rightarrow> uses u = uses u0"
          using alt
        proof (elim disjE conjE exE)
          assume "uses_tab s2 = uses_tab s1"
          then show ?thesis using u(1) f1(4) by simp
        next
          fix x assume a: "avail s2 = [x]" "uses_tab s1 x = None"
            "uses_tab s2 = (uses_tab s1)(x \<mapsto> \<lparr>uses = 0, last_get = now, last_ret = now\<rparr>)"
          then have "obj = x" using m by simp
          then show ?thesis using a u(1) f1(4) by auto
        qed
        then have uc: "case uses_tab s obj of None \<Rightarrow> uses (u\<lparr>uses := uses u + 1, last_get := now\<rparr>) = 1
             | Some u0 \<Rightarrow> uses (u\<lparr>uses := uses u + 1, last_get := now\<rparr>) = uses u0 + 1"
          by (simp split: option.splits)
        have fs4: "obj \<in> set (using_objs s4)" "obj \<notin> set (avail s4)" "todel s4 = todel s"
          using f3 f2 f1 by (simp_all add: s4_def)
        show ?thesis using r inv4 g fs4 ua uc by simp
      qed
    qed
  qed
qed

subsection \<open>Release\<close>

lemma made_okD:
  assumes "made_ok P s" "obj \<in> known s"
  shows "\<exists>k n. k \<le> ncreating s \<and> fun_hook P k n = Returns obj"
  using assms unfolding made_ok_def by blast

lemma gone_stays_gone:
  assumes ff: "fresh_factory P"
    and mk: "k \<le> ncreating s" "fun_hook P k n = Returns obj"
    and gone: "uses_tab s obj = None"
    and g: "good P s s'"
  shows "uses_tab s' obj = None" "obj \<notin> set (avail s')" "obj \<notin> set (using_objs s')"
proof -
  show n: "uses_tab s' obj = None"
  proof (rule ccontr)
    assume "uses_tab s' obj \<noteq> None"
    then obtain u' where "uses_tab s' obj = Some u'" by auto
    with goodD(4)[OF g] gone obtain k' n' where
      k': "ncreating s < k'" "fun_hook P k' n' = Returns obj"
      unfolding uses_grow_def by force
    with ff mk(2) have "k = k'" unfolding fresh_factory_def by blast
    with k'(1) mk(1) show False by simp
  qed
  have "dom (uses_tab s') = set (avail s') \<union> set (using_objs s')"
    by (rule sets_okD(8)[OF book_okD(1)[OF goodD(1)[OF g]]])
  moreover have "obj \<notin> dom (uses_tab s')" using n by (simp add: domIff)
  ultimately show "obj \<notin> set (avail s')" "obj \<notin> set (using_objs s')" by auto
qed

lemma ret_move_spec:
  assumes bk: "book_ok P s" and m: "obj \<in> set (using_objs s)"
  shows "\<exists>s1 u. ret_move P now obj s = (Inr (), s1) \<and> good P s s1 \<and> sem s1 = sem s \<and>
     int (length (using_objs s1)) = int (length (using_objs s)) - 1 \<and>
     obj \<notin> set (using_objs s1) \<and> using_objs s1 = removeAll obj (using_objs s) \<and>
     uses_tab s obj = Some u \<and>
     (if max_use P \<noteq> 0 \<and> max_use P \<le> uses u
      then s1 = to_del obj (s\<lparr>nwornout := nwornout s + 1\<rparr>)
      else avail s1 = set_add obj (avail s) \<and> todel s1 = todel s \<and>
           uses_tab s1 = (uses_tab s)(obj \<mapsto> u\<lparr>last_ret := now\<rparr>))"
proof -
  note sd = sets_okD[OF book_okD(1)[OF bk]]
  have "obj \<in> dom (uses_tab s)" using sd(8) m by simp
  then obtain u where u: "uses_tab s obj = Some u" by auto
  have na: "obj \<notin> set (avail s)" using m by (rule sd(7))
  show ?thesis
  proof (cases "max_use P \<noteq> 0 \<and> max_use P \<le> uses u")
    case True
    define s0 where "s0 = s\<lparr>nwornout := nwornout s + 1\<rparr>"
    define s1 where "s1 = to_del obj s0"
    have g0: "good P s s0" unfolding s0_def by (rule good_frame[OF bk]) simp_all
    have f0: "avail s0 = avail s" "using_objs s0 = using_objs s" "sem s0 = sem s"
      by (simp_all add: s0_def)
    have g1: "good P s0 s1" unfolding s1_def
      by (rule to_del_spec[OF goodD(1)[OF g0]]) (simp add: f0 m)
    have r: "ret_move P now obj s = (Inr (), s1)" using True u
      by (simp add: ret_move_def s1_def s0_def)
    have g: "good P s s1"
      using g0 g1 by (simp add: good_def uses_grow_def s1_def s0_def to_del_fields split: option.splits)
    have l: "int (length (using_objs s1)) = int (length (using_objs s)) - 1"
      using length_removeAll_distinct[OF sd(2) m] by (simp add: s1_def to_del_fields f0)
    have "obj \<notin> set (using_objs s1)" "sem s1 = sem s" "using_objs s1 = removeAll obj (using_objs s)"
      by (simp_all add: s1_def to_del_fields f0)
    then show ?thesis using r g l u True by (simp add: s1_def s0_def)
  next
    case False
    define s1 where "s1 = s\<lparr>using_objs := removeAll obj (using_objs s),
                      avail := set_add obj (avail s),
                      uses_tab := (uses_tab s)(obj \<mapsto> u\<lparr>last_ret := now\<rparr>)\<rparr>"
    have fs: "avail s1 = set_add obj (avail s)" "using_objs s1 = removeAll obj (using_objs s)"
      "todel s1 = todel s" "sem s1 = sem s" "cur_min_size s1 = cur_min_size s"
      "shutdown_flag s1 = shutdown_flag s" "nobjs s1 = nobjs s" "ncreated s1 = ncreated s"
      "ndestroys s1 = ndestroys s" "ncreating s1 = ncreating s"
      "uses_tab s1 = (uses_tab s)(obj \<mapsto> u\<lparr>last_ret := now\<rparr>)"
      by (simp_all add: s1_def)
    have r: "ret_move P now obj s = (Inr (), s1)" using False u
      by (auto simp: ret_move_def Let_def s1_def)
    have d: "dom (uses_tab s1) = dom (uses_tab s)" using u by (auto simp: fs)
    have b: "book_ok P s1" by (rule book_to_avail(1)[OF bk m fs(1,2,3) d]) (simp_all add: fs)
    have l: "int (length (using_objs s1)) = int (length (using_objs s)) - 1"
      by (rule book_to_avail(2)[OF bk m fs(1,2,3) d]) (simp_all add: fs)
    have ug: "uses_grow P s s1" by (rule uses_grow_upd[OF fs(11) u]) (simp_all add: fs)
    have g: "good P s s1" using b ug fs by (simp add: good_def)
    have "obj \<notin> set (using_objs s1)" by (simp add: fs)
    then show ?thesis using r g l u False fs by auto
  qed
qed

lemma good_ncreating: "good P s s' \<Longrightarrow> ncreating s \<le> ncreating s'"
  by (simp add: good_def uses_grow_def)

lemma ret_spec:
  assumes ff: "fresh_factory P" and inv: "pool_inv P s"
  shows "\<exists>s'. pool_ret P now obj s = (Inr (), s') \<and> pool_inv P s' \<and> good P s s' \<and>
     (obj \<notin> set (using_objs s) \<longrightarrow> s' = guarded_hook (retter P) Retter_exception obj s) \<and>
     (obj \<in> set (using_objs s) \<longrightarrow>
        obj \<notin> set (using_objs s') \<and> todel s' = [] \<and>
        using_objs s' = removeAll obj (using_objs s) \<and>
        (case sem s of None \<Rightarrow> sem s' = None
         | Some b \<Rightarrow> sem s' = Some (b\<lparr>sem_value := sem_value b + 1\<rparr>)) \<and>
        (\<forall>u. uses_tab s obj = Some u \<longrightarrow> max_use P \<noteq> 0 \<longrightarrow> max_use P \<le> uses u \<longrightarrow>
           uses_tab s' obj = None \<and> obj \<notin> set (avail s')))"
proof -
  note bk = pool_invD(1)[OF inv] and so = pool_invD(2)[OF inv]
  define s0 where "s0 = guarded_hook (retter P) Retter_exception obj s"
  have g0: "good P s s0" unfolding s0_def by (rule good_frame[OF bk]) simp_all
  have f0: "sem s0 = sem s" "using_objs s0 = using_objs s" by (simp_all add: s0_def)
  have inv0: "pool_inv P s0" by (rule good_inv_same[OF inv g0 f0])
  note bk0 = pool_invD(1)[OF inv0] and so0 = pool_invD(2)[OF inv0]
  show ?thesis
  proof (cases "obj \<in> set (using_objs s)")
    case False
    then have "pool_ret P now obj s = (Inr (), s0)"
      by (simp add: pool_ret_def Let_def s0_def)
    then show ?thesis using False inv0 g0 by (simp add: s0_def)
  next
    case True
    then have m0: "obj \<in> set (using_objs s0)" by (simp add: f0)
    from ret_move_spec[OF bk0 m0, where now=now] obtain s1 where
      r1: "ret_move P now obj s0 = (Inr (), s1)" and g1: "good P s0 s1" and
      f1: "sem s1 = sem s0" "int (length (using_objs s1)) = int (length (using_objs s0)) - 1"
        "obj \<notin> set (using_objs s1)" and u10: "using_objs s1 = removeAll obj (using_objs s0)"
      and w1: "\<exists>u. uses_tab s0 obj = Some u \<and>
        (max_use P \<noteq> 0 \<and> max_use P \<le> uses u \<longrightarrow> uses_tab s1 obj = None)"
      by (auto simp: to_del_fields split: if_splits)
    have u1: "using_objs s1 = removeAll obj (using_objs s)" using u10 f0 by simp
    from sem_release_spec[OF so0 goodD(1)[OF g1] f1(1,2)] obtain s2 where
      r2: "pool_sem_release s1 = Inr s2" and inv2: "pool_inv P s2" and g2: "good P s1 s2"
      and f2: "using_objs s2 = using_objs s1"
        "case sem s0 of None \<Rightarrow> sem s2 = None
          | Some b \<Rightarrow> sem s2 = Some (b\<lparr>sem_value := sem_value b + 1\<rparr>)"
      and u2: "uses_tab s2 = uses_tab s1"
      by blast
    define s3 where "s3 = pool_empty P s2"
    have g3: "good P s2 s3" unfolding s3_def by (rule empty_spec[OF pool_invD(1)[OF inv2]])
    have f3: "sem s3 = sem s2" "using_objs s3 = using_objs s2" "todel s3 = []"
      by (simp_all add: s3_def empty_fields)
    have inv3: "pool_inv P s3" by (rule good_inv_same[OF inv2 g3 f3(1,2)])
    from fill_spec[OF ff inv3, of now] obtain s4 where
      r4: "pool_fill P now s3 = (Inr (), s4)" and inv4: "pool_inv P s4" and g4: "good P s3 s4"
      and f4: "sem s4 = sem s3" "using_objs s4 = using_objs s3" "todel s4 = todel s3"
      by blast
    have r: "pool_ret P now obj s = (Inr (), s4)"
      using m0 r1 r2 r4 by (simp add: pool_ret_def Let_def s0_def[symmetric] s3_def)
    have g: "good P s s4"
      using good_trans[OF bk ff g0 good_trans[OF bk0 ff g1
            good_trans[OF goodD(1)[OF g1] ff g2 good_trans[OF pool_invD(1)[OF inv2] ff g3 g4]]]] .
    have c: "case sem s of None \<Rightarrow> sem s4 = None
          | Some b \<Rightarrow> sem s4 = Some (b\<lparr>sem_value := sem_value b + 1\<rparr>)"
      using f2(2) f0(1) f3(1) f4(1) by (simp split: option.splits)
    have g03: "good P s s3"
      using good_trans[OF bk ff g0 good_trans[OF bk0 ff g1
            good_trans[OF goodD(1)[OF g1] ff g2 g3]]] .
    have "obj \<in> known s" using True by (simp add: known_def)
    from made_okD[OF book_okD(3)[OF bk] this] obtain k n where
      kn: "k \<le> ncreating s" "fun_hook P k n = Returns obj" by blast
    have k3: "k \<le> ncreating s3" using kn(1) good_ncreating[OF g03] by simp
    have w: "\<forall>u. uses_tab s obj = Some u \<longrightarrow> max_use P \<noteq> 0 \<longrightarrow> max_use P \<le> uses u \<longrightarrow>
           uses_tab s4 obj = None \<and> obj \<notin> set (avail s4)"
    proof (intro allI impI)
      fix u assume a: "uses_tab s obj = Some u" "max_use P \<noteq> 0" "max_use P \<le> uses u"
      then have "uses_tab s1 obj = None" using w1 by (auto simp: s0_def)
      then have "uses_tab s3 obj = None" by (simp add: s3_def empty_fields u2)
      from gone_stays_gone(1,2)[OF ff k3 kn(2) this g4]
      show "uses_tab s4 obj = None \<and> obj \<notin> set (avail s4)" by simp
    qed
    have "obj \<notin> set (using_objs s4)" "todel s4 = []" "using_objs s4 = removeAll obj (using_objs s)"
      using f1(3) f2(1) f3 f4 u1 by simp_all
    then show ?thesis using r inv4 g c True w by simp
  qed
qed

subsection \<open>The borrow-age sweep\<close>

lemma counter_good:
  assumes bk: "book_ok P s"
  shows "good P s (s\<lparr>nkilled := x\<rparr>)" "good P s (s\<lparr>nrecycled := x\<rparr>)"
    "good P s (s\<lparr>hk_rounds := x\<rparr>)" "good P s (s\<lparr>hc_rounds := x\<rparr>)"
    "good P s (s\<lparr>bad_health := x\<rparr>)"
  by (rule good_frame[OF bk]; simp)+

lemma kill_loop_spec:
  assumes ff: "fresh_factory P"
  shows "pool_inv P s \<Longrightarrow> set objs \<subseteq> set (using_objs s) \<Longrightarrow> distinct objs \<Longrightarrow>
    \<exists>acc' s'. kill_loop P now objs acc s = (Inr acc', s') \<and> pool_inv P s' \<and> good P s s' \<and>
      avail s' = avail s \<and> set (todel s) \<subseteq> set (todel s') \<and>
      set (using_objs s') \<subseteq> set (using_objs s) \<and>
      (\<forall>x \<in> set objs. \<forall>u. uses_tab s x = Some u \<longrightarrow>
          max_using_delay_kill P \<noteq> 0 \<longrightarrow> max_using_delay_kill P \<le> now - last_get u \<longrightarrow>
          x \<in> set (todel s') \<and> x \<notin> set (using_objs s'))"
proof (induction objs arbitrary: s acc)
  case Nil
  then show ?case by (cases acc) (simp add: good_refl pool_invD)
next
  case (Cons obj objs)
  note inv = Cons.prems(1)
  note bk = pool_invD(1)[OF inv] and so = pool_invD(2)[OF inv]
  note sd = sets_okD[OF book_okD(1)[OF bk]]
  obtain lr lk lt where acc: "acc = (lr, lk, lt)" by (cases acc)
  have m: "obj \<in> set (using_objs s)" using Cons.prems(2) by simp
  have no: "obj \<notin> set objs" and dis: "distinct objs" using Cons.prems(3) by simp_all
  have "obj \<in> dom (uses_tab s)" using sd(8) m by simp
  then obtain u where u: "uses_tab s obj = Some u" by auto
  define running where "running = now - last_get u"
  define lr' where "lr' = (if max_using_delay_warn P \<le> running then lr + 1 else lr)"
  define lt' where "lt' = (if max_using_delay_warn P \<le> running then lt + running else lt)"
  show ?case
  proof (cases "max_using_delay_kill P \<noteq> 0 \<and> max_using_delay_kill P \<le> running")
    case False
    have e: "kill_loop P now (obj # objs) acc s = kill_loop P now objs (lr', lk, lt') s"
      using False u acc by (auto simp: Let_def running_def lr'_def lt'_def)
    from Cons.IH[OF inv _ dis, of "(lr', lk, lt')"] Cons.prems(2)
    obtain acc' s' where r: "kill_loop P now objs (lr', lk, lt') s = (Inr acc', s')"
      "pool_inv P s'" "good P s s'" "avail s' = avail s" "set (todel s) \<subseteq> set (todel s')"
      "set (using_objs s') \<subseteq> set (using_objs s)"
      "\<forall>x \<in> set objs. \<forall>u. uses_tab s x = Some u \<longrightarrow>
          max_using_delay_kill P \<noteq> 0 \<longrightarrow> max_using_delay_kill P \<le> now - last_get u \<longrightarrow>
          x \<in> set (todel s') \<and> x \<notin> set (using_objs s')"
      by auto
    have "\<forall>x \<in> set (obj # objs). \<forall>u. uses_tab s x = Some u \<longrightarrow>
          max_using_delay_kill P \<noteq> 0 \<longrightarrow> max_using_delay_kill P \<le> now - last_get u \<longrightarrow>
          x \<in> set (todel s') \<and> x \<notin> set (using_objs s')"
      using r(7) False u by (auto simp: running_def)
    then show ?thesis using e r(1-6) by (intro exI[of _ acc'] exI[of _ s']) simp
  next
    case True
    define s0 where "s0 = s\<lparr>nkilled := nkilled s + 1\<rparr>"
    define s2 where "s2 = to_del obj s0"
    have g0: "good P s s0" unfolding s0_def by (rule counter_good[OF bk])
    have f0: "avail s0 = avail s" "using_objs s0 = using_objs s" "sem s0 = sem s"
      "todel s0 = todel s" "uses_tab s0 = uses_tab s"
      by (simp_all add: s0_def)
    have g02: "good P s0 s2" unfolding s2_def
      by (rule to_del_spec[OF goodD(1)[OF g0]]) (simp add: f0 m)
    have f2: "avail s2 = avail s" "using_objs s2 = removeAll obj (using_objs s)" "sem s2 = sem s"
      "todel s2 = set_add obj (todel s)" "uses_tab s2 = (uses_tab s)(obj := None)"
      using sd(7)[OF m] by (simp_all add: s2_def to_del_fields f0)
    have l2: "int (length (using_objs s2)) = int (length (using_objs s)) - 1"
      using length_removeAll_distinct[OF sd(2) m] by (simp add: f2)
    from sem_release_spec[OF so goodD(1)[OF g02] f2(3) l2] obtain s3 where
      r3: "pool_sem_release s2 = Inr s3" and inv3: "pool_inv P s3" and g23: "good P s2 s3"
      and f3: "avail s3 = avail s2" "using_objs s3 = using_objs s2" "todel s3 = todel s2"
        "uses_tab s3 = uses_tab s2"
      by blast
    have e: "kill_loop P now (obj # objs) acc s = kill_loop P now objs (lr', lk + 1, lt') s3"
      using True u acc r3
      by (simp add: Let_def running_def[symmetric] lr'_def lt'_def s0_def[symmetric] s2_def[symmetric])
    have sub: "set objs \<subseteq> set (using_objs s3)" using Cons.prems(2) no by (auto simp: f3 f2)
    from Cons.IH[OF inv3 sub dis, of "(lr', lk + 1, lt')"]
    obtain acc' s' where r: "kill_loop P now objs (lr', lk + 1, lt') s3 = (Inr acc', s')"
      "pool_inv P s'" "good P s3 s'" "avail s' = avail s3" "set (todel s3) \<subseteq> set (todel s')"
      "set (using_objs s') \<subseteq> set (using_objs s3)"
      "\<forall>x \<in> set objs. \<forall>u. uses_tab s3 x = Some u \<longrightarrow>
          max_using_delay_kill P \<noteq> 0 \<longrightarrow> max_using_delay_kill P \<le> now - last_get u \<longrightarrow>
          x \<in> set (todel s') \<and> x \<notin> set (using_objs s')"
      by auto
    have g: "good P s s'"
      using good_trans[OF bk ff g0 good_trans[OF goodD(1)[OF g0] ff g02
            good_trans[OF goodD(1)[OF g02] ff g23 r(3)]]] .
    have t1: "set (todel s) \<subseteq> set (todel s')" using r(5) by (auto simp: f3 f2)
    have t2: "set (using_objs s') \<subseteq> set (using_objs s)" using r(6) by (auto simp: f3 f2)
    have o1: "obj \<in> set (todel s')" using r(5) by (auto simp: f3 f2)
    have o2: "obj \<notin> set (using_objs s')" using r(6) by (auto simp: f3 f2)
    have "\<forall>x \<in> set (obj # objs). \<forall>u. uses_tab s x = Some u \<longrightarrow>
          max_using_delay_kill P \<noteq> 0 \<longrightarrow> max_using_delay_kill P \<le> now - last_get u \<longrightarrow>
          x \<in> set (todel s') \<and> x \<notin> set (using_objs s')"
    proof (intro ballI allI impI)
      fix x u' assume x: "x \<in> set (obj # objs)" and a: "uses_tab s x = Some u'"
        "max_using_delay_kill P \<noteq> 0" "max_using_delay_kill P \<le> now - last_get u'"
      show "x \<in> set (todel s') \<and> x \<notin> set (using_objs s')"
      proof (cases "x = obj")
        case True
        then show ?thesis using o1 o2 by simp
      next
        case False
        then have "x \<in> set objs" "uses_tab s3 x = Some u'" using x a(1) by (simp_all add: f3 f2)
        then show ?thesis using r(7) a(2,3) by blast
      qed
    qed
    then show ?thesis using e r(1,2,4) g t1 t2 by (intro exI[of _ acc'] exI[of _ s']) (simp add: f3 f2)
  qed
qed

lemma kill_sweep_spec:
  assumes ff: "fresh_factory P" and inv: "pool_inv P s"
  shows "\<exists>s'. kill_sweep P now s = (Inr (), s') \<and> pool_inv P s' \<and> good P s s' \<and>
      avail s' = avail s \<and> set (todel s) \<subseteq> set (todel s') \<and>
      set (using_objs s') \<subseteq> set (using_objs s) \<and>
      (\<forall>x \<in> set (using_objs s). \<forall>u. uses_tab s x = Some u \<longrightarrow>
          max_using_delay_kill P > 0 \<longrightarrow> max_using_delay_kill P \<le> now - last_get u \<longrightarrow>
          x \<in> set (todel s') \<and> x \<notin> set (using_objs s'))"
proof (cases "max_using_delay_warn P \<noteq> 0")
  case False
  then have k0: "\<not> max_using_delay_kill P > 0" by (auto simp: max_using_delay_warn_def split: if_splits)
  have "kill_sweep P now s = (Inr (), s)" using False by (simp add: kill_sweep_def)
  then show ?thesis using inv k0 by (simp add: good_refl pool_invD)
next
  case True
  note sd = sets_okD[OF book_okD(1)[OF pool_invD(1)[OF inv]]]
  from kill_loop_spec[OF ff inv subset_refl sd(2), of now "(0, 0, 0)"]
  obtain acc' s1 where r: "kill_loop P now (using_objs s) (0, 0, 0) s = (Inr acc', s1)"
      "pool_inv P s1" "good P s s1" "avail s1 = avail s" "set (todel s) \<subseteq> set (todel s1)"
      "set (using_objs s1) \<subseteq> set (using_objs s)"
      "\<forall>x \<in> set (using_objs s). \<forall>u. uses_tab s x = Some u \<longrightarrow>
          max_using_delay_kill P \<noteq> 0 \<longrightarrow> max_using_delay_kill P \<le> now - last_get u \<longrightarrow>
          x \<in> set (todel s1) \<and> x \<notin> set (using_objs s1)"
    by blast
  obtain lr lk lt where acc: "acc' = (lr, lk, lt)" by (cases acc')
  define s' where "s' = (if lr \<noteq> 0 \<or> lk \<noteq> 0 then log_add Long_running s1 else s1)"
  have e: "kill_sweep P now s = (Inr (), s')" using True r(1) acc
    by (simp add: kill_sweep_def s'_def)
  have g1: "good P s1 s'" unfolding s'_def
    by (auto intro!: good_frame good_refl pool_invD(1)[OF r(2)])
  have fs: "avail s' = avail s1" "using_objs s' = using_objs s1" "todel s' = todel s1" "sem s' = sem s1"
    by (simp_all add: s'_def)
  have inv': "pool_inv P s'" by (rule good_inv_same[OF r(2) g1 fs(4,2)])
  have g: "good P s s'" by (rule good_trans[OF pool_invD(1)[OF inv] ff r(3) g1])
  show ?thesis using e inv' g r(4-7) by (auto simp: fs)
qed

subsection \<open>The idle sweep and the round\<close>

lemma idle_loop_spec:
  assumes ff: "fresh_factory P"
  shows "pool_inv P s \<Longrightarrow> set objs \<subseteq> set (avail s) \<Longrightarrow> distinct objs \<Longrightarrow>
    \<exists>s'. idle_loop P now objs s = (Inr (), s') \<and> pool_inv P s' \<and> good P s s' \<and>
      using_objs s' = using_objs s \<and> sem s' = sem s \<and> set (todel s) \<subseteq> set (todel s') \<and>
      set (avail s') \<subseteq> set (avail s) \<and> nobjs s' \<le> nobjs s \<and>
      (cur_min_size s < nobjs s \<longrightarrow> cur_min_size s \<le> nobjs s') \<and>
      (\<forall>x \<in> set (avail s) - set (avail s'). x \<in> set (todel s') \<and>
          (\<exists>u. uses_tab s x = Some u \<and> max_avail_delay P \<le> now - last_ret u))"
proof (induction objs arbitrary: s)
  case Nil
  then show ?case by (simp add: good_refl pool_invD)
next
  case (Cons obj objs)
  note inv = Cons.prems(1)
  note bk = pool_invD(1)[OF inv] and so = pool_invD(2)[OF inv]
  note sd = sets_okD[OF book_okD(1)[OF bk]]
  have m: "obj \<in> set (avail s)" using Cons.prems(2) by simp
  have no: "obj \<notin> set objs" and dis: "distinct objs" using Cons.prems(3) by simp_all
  have "obj \<in> dom (uses_tab s)" using sd(8) m by simp
  then obtain u where u: "uses_tab s obj = Some u" by auto
  show ?case
  proof (cases "max_avail_delay P \<le> now - last_ret u")
    case False
    have e: "idle_loop P now (obj # objs) s = idle_loop P now objs s"
      using False u by simp
    from Cons.IH[OF inv _ dis] Cons.prems(2) show ?thesis unfolding e by simp
  next
    case True
    define s0 where "s0 = s\<lparr>nrecycled := nrecycled s + 1\<rparr>"
    define s2 where "s2 = to_del obj s0"
    have g0: "good P s s0" unfolding s0_def by (rule counter_good[OF bk])
    have f0: "avail s0 = avail s" "using_objs s0 = using_objs s" "sem s0 = sem s"
      "todel s0 = todel s" "uses_tab s0 = uses_tab s" "nobjs s0 = nobjs s"
      "cur_min_size s0 = cur_min_size s"
      by (simp_all add: s0_def)
    have g02: "good P s0 s2" unfolding s2_def
      by (rule to_del_spec[OF goodD(1)[OF g0]]) (simp add: f0 m)
    have f2: "avail s2 = removeAll obj (avail s)" "using_objs s2 = using_objs s" "sem s2 = sem s"
      "todel s2 = set_add obj (todel s)" "uses_tab s2 = (uses_tab s)(obj := None)"
      "nobjs s2 = nobjs s - 1" "cur_min_size s2 = cur_min_size s"
      using sd(4)[OF m] m by (simp_all add: s2_def to_del_fields f0)
    have g2: "good P s s2" by (rule good_trans[OF bk ff g0 g02])
    have inv2: "pool_inv P s2" by (rule good_inv_same[OF inv g2 f2(3,2)])
    have here: "\<forall>x \<in> set (avail s) - set (avail s2). x \<in> set (todel s2) \<and>
          (\<exists>u. uses_tab s x = Some u \<and> max_avail_delay P \<le> now - last_ret u)"
      using u True by (auto simp: f2)
    show ?thesis
    proof (cases "nobjs s2 \<le> cur_min_size s2")
      case stop: True
      have e: "idle_loop P now (obj # objs) s = (Inr (), s2)"
        using True u stop by (simp add: Let_def s0_def[symmetric] s2_def[symmetric])
      have "cur_min_size s < nobjs s \<longrightarrow> cur_min_size s \<le> nobjs s2"
        by (simp add: f2)
      moreover have "set (todel s) \<subseteq> set (todel s2)" "set (avail s2) \<subseteq> set (avail s)"
        "nobjs s2 \<le> nobjs s" by (auto simp: f2)
      ultimately show ?thesis using e inv2 g2 here f2(2,3) by simp
    next
      case go: False
      have e: "idle_loop P now (obj # objs) s = idle_loop P now objs s2"
        using True u go by (simp add: Let_def s0_def[symmetric] s2_def[symmetric])
      have sub: "set objs \<subseteq> set (avail s2)" using Cons.prems(2) no by (auto simp: f2)
      from Cons.IH[OF inv2 sub dis] obtain s' where
        r: "idle_loop P now objs s2 = (Inr (), s')" "pool_inv P s'" "good P s2 s'"
          "using_objs s' = using_objs s2" "sem s' = sem s2" "set (todel s2) \<subseteq> set (todel s')"
          "set (avail s') \<subseteq> set (avail s2)" "nobjs s' \<le> nobjs s2"
          "cur_min_size s2 < nobjs s2 \<longrightarrow> cur_min_size s2 \<le> nobjs s'"
          "\<forall>x \<in> set (avail s2) - set (avail s'). x \<in> set (todel s') \<and>
            (\<exists>u. uses_tab s2 x = Some u \<and> max_avail_delay P \<le> now - last_ret u)"
        by blast
      have g: "good P s s'" by (rule good_trans[OF bk ff g2 r(3)])
      have a: "\<forall>x \<in> set (avail s) - set (avail s'). x \<in> set (todel s') \<and>
          (\<exists>u. uses_tab s x = Some u \<and> max_avail_delay P \<le> now - last_ret u)"
      proof
        fix x assume x: "x \<in> set (avail s) - set (avail s')"
        show "x \<in> set (todel s') \<and> (\<exists>u. uses_tab s x = Some u \<and> max_avail_delay P \<le> now - last_ret u)"
        proof (cases "x = obj")
          case True
          then show ?thesis using u \<open>max_avail_delay P \<le> now - last_ret u\<close> r(6) by (auto simp: f2)
        next
          case False
          then have "x \<in> set (avail s2) - set (avail s')" using x by (simp add: f2)
          with r(10) have "x \<in> set (todel s') \<and>
            (\<exists>u. uses_tab s2 x = Some u \<and> max_avail_delay P \<le> now - last_ret u)" by blast
          then show ?thesis using False by (simp add: f2)
        qed
      qed
      have "set (todel s) \<subseteq> set (todel s')" "set (avail s') \<subseteq> set (avail s)" "nobjs s' \<le> nobjs s"
        "cur_min_size s < nobjs s \<longrightarrow> cur_min_size s \<le> nobjs s'"
        using r(6,7,8,9) go by (auto simp: f2)
      then show ?thesis using e r(1,2,4,5) g a by (simp add: f2)
    qed
  qed
qed


lemma idle_sweep_spec:
  assumes ff: "fresh_factory P" and inv: "pool_inv P s"
  shows "\<exists>s'. idle_sweep P now s = (Inr (), s') \<and> pool_inv P s' \<and> good P s s' \<and>
      using_objs s' = using_objs s \<and> sem s' = sem s \<and> set (todel s) \<subseteq> set (todel s') \<and>
      set (avail s') \<subseteq> set (avail s) \<and> nobjs s' \<le> nobjs s \<and>
      (cur_min_size s \<le> nobjs s \<longrightarrow> cur_min_size s \<le> nobjs s') \<and>
      (\<forall>x \<in> set (avail s) - set (avail s'). x \<in> set (todel s') \<and>
          (\<exists>u. uses_tab s x = Some u \<and> max_avail_delay P \<le> now - last_ret u))"
proof (cases "max_avail_delay P \<noteq> 0 \<and> cur_min_size s < nobjs s")
  case False
  then have "idle_sweep P now s = (Inr (), s)" by (auto simp: idle_sweep_def)
  then show ?thesis using inv by (simp add: good_refl pool_invD)
next
  case True
  note sd = sets_okD[OF book_okD(1)[OF pool_invD(1)[OF inv]]]
  have e: "idle_sweep P now s = idle_loop P now (avail s) s" using True by (simp add: idle_sweep_def)
  from idle_loop_spec[OF ff inv subset_refl sd(1), of now] True show ?thesis unfolding e by auto
qed

lemma hkRound_spec:
  assumes ff: "fresh_factory P" and inv: "pool_inv P s"
  shows "\<exists>s'. pool_hkRound P now s = (Inr (), s') \<and> pool_inv P s' \<and> good P s s' \<and>
      set (todel s) \<subseteq> set (todel s') \<and> set (avail s') \<subseteq> set (avail s) \<and>
      set (using_objs s') \<subseteq> set (using_objs s) \<and>
      (\<forall>x \<in> set (using_objs s). \<forall>u. uses_tab s x = Some u \<longrightarrow>
          max_using_delay_kill P > 0 \<longrightarrow> max_using_delay_kill P \<le> now - last_get u \<longrightarrow>
          x \<in> set (todel s') \<and> x \<notin> set (using_objs s') \<and> x \<notin> set (avail s'))"
proof -
  note bk = pool_invD(1)[OF inv]
  note sd = sets_okD[OF book_okD(1)[OF bk]]
  define s0 where "s0 = s\<lparr>hk_rounds := hk_rounds s + 1\<rparr>"
  have g0: "good P s s0" unfolding s0_def by (rule counter_good[OF bk])
  have f0: "avail s0 = avail s" "using_objs s0 = using_objs s" "sem s0 = sem s"
      "todel s0 = todel s" "uses_tab s0 = uses_tab s"
    by (simp_all add: s0_def)
  have inv0: "pool_inv P s0" by (rule good_inv_same[OF inv g0 f0(3,2)])
  from kill_sweep_spec[OF ff inv0, of now] obtain s1 where
    k: "kill_sweep P now s0 = (Inr (), s1)" "pool_inv P s1" "good P s0 s1"
      "avail s1 = avail s0" "set (todel s0) \<subseteq> set (todel s1)"
      "set (using_objs s1) \<subseteq> set (using_objs s0)"
      "\<forall>x \<in> set (using_objs s0). \<forall>u. uses_tab s0 x = Some u \<longrightarrow>
          max_using_delay_kill P > 0 \<longrightarrow> max_using_delay_kill P \<le> now - last_get u \<longrightarrow>
          x \<in> set (todel s1) \<and> x \<notin> set (using_objs s1)"
    by blast
  from idle_sweep_spec[OF ff k(2), of now] obtain s2 where
    i: "idle_sweep P now s1 = (Inr (), s2)" "pool_inv P s2" "good P s1 s2"
      "using_objs s2 = using_objs s1" "set (todel s1) \<subseteq> set (todel s2)"
      "set (avail s2) \<subseteq> set (avail s1)"
    by blast
  have e: "pool_hkRound P now s = (Inr (), s2)" using k(1) i(1)
    by (simp add: pool_hkRound_def s0_def[symmetric])
  have g: "good P s s2"
    using good_trans[OF bk ff g0 good_trans[OF pool_invD(1)[OF inv0] ff k(3) i(3)]] .
  have "\<forall>x \<in> set (using_objs s). \<forall>u. uses_tab s x = Some u \<longrightarrow>
          max_using_delay_kill P > 0 \<longrightarrow> max_using_delay_kill P \<le> now - last_get u \<longrightarrow>
          x \<in> set (todel s2) \<and> x \<notin> set (using_objs s2) \<and> x \<notin> set (avail s2)"
  proof (intro ballI allI impI)
    fix x u assume x: "x \<in> set (using_objs s)" and a: "uses_tab s x = Some u"
      "max_using_delay_kill P > 0" "max_using_delay_kill P \<le> now - last_get u"
    from k(7) x a have "x \<in> set (todel s1) \<and> x \<notin> set (using_objs s1)" by (simp add: f0)
    moreover have "x \<notin> set (avail s)" using x by (rule sd(7))
    ultimately show "x \<in> set (todel s2) \<and> x \<notin> set (using_objs s2) \<and> x \<notin> set (avail s2)"
      using i(4,5,6) k(4) f0 by auto
  qed
  moreover have "set (todel s) \<subseteq> set (todel s2)" "set (avail s2) \<subseteq> set (avail s)"
      "set (using_objs s2) \<subseteq> set (using_objs s)"
    using k(4,5,6) i(4,5,6) f0 by auto
  ultimately show ?thesis using e i(2) g by simp
qed

subsection \<open>The health check, the housekeeper and sequences of calls\<close>

lemma health_ask_spec:
  assumes inv: "pool_inv P s"
  shows "\<exists>hl s'. health_ask h obj s = (hl, s') \<and> pool_inv P s' \<and> good P s s' \<and>
     avail s' = avail s \<and> using_objs s' = using_objs s \<and> todel s' = todel s \<and> sem s' = sem s"
proof -
  note bk = pool_invD(1)[OF inv]
  obtain hl s' where r: "health_ask h obj s = (hl, s')" by (cases "health_ask h obj s")
  have f: "avail s' = avail s" "using_objs s' = using_objs s" "todel s' = todel s" "sem s' = sem s"
    "uses_tab s' = uses_tab s" "nobjs s' = nobjs s" "ncreated s' = ncreated s"
    "ndestroys s' = ndestroys s" "ncreating s' = ncreating s"
    "cur_min_size s' = cur_min_size s" "shutdown_flag s' = shutdown_flag s"
    using r by (auto simp: health_ask_def Let_def split: outcome.splits)
  have g: "good P s s'" by (rule good_frame[OF bk f(1,2,3,5-11)])
  have "pool_inv P s'" by (rule good_inv_same[OF inv g f(4,2)])
  then show ?thesis using r g f by simp
qed

lemma health_bad_spec:
  assumes ff: "fresh_factory P" and inv: "pool_inv P s" and m: "obj \<in> set (avail s)"
  shows "\<exists>r s'. health_bad tr obj s = (r, s') \<and> pool_inv P s' \<and> good P s s'"
proof (cases "case tr of None \<Rightarrow> Returns [] | Some f \<Rightarrow> f obj")
  case Raises
  then have "health_bad tr obj s = (Inl HookError, s)" by (simp add: health_bad_def)
  then show ?thesis using inv by (simp add: good_refl pool_invD)
next
  case (Returns msg)
  note bk = pool_invD(1)[OF inv]
  note sd = sets_okD[OF book_okD(1)[OF bk]]
  define s1 where "s1 = log_add Bad_health s"
  define s2 where "s2 = s1\<lparr>bad_health := bad_health s1 + 1\<rparr>"
  define s3 where "s3 = to_del obj s2"
  have g1: "good P s s1" unfolding s1_def by (rule good_frame[OF bk]) simp_all
  have g2: "good P s1 s2" unfolding s2_def by (rule counter_good[OF goodD(1)[OF g1]])
  have f2: "avail s2 = avail s" "using_objs s2 = using_objs s" "sem s2 = sem s"
    by (simp_all add: s2_def s1_def)
  have g3: "good P s2 s3" unfolding s3_def
    by (rule to_del_spec[OF goodD(1)[OF g2]]) (simp add: f2 m)
  have f3: "using_objs s3 = using_objs s" "sem s3 = sem s"
    using sd(4)[OF m] by (simp_all add: s3_def to_del_fields f2)
  have g: "good P s s3"
    using good_trans[OF bk ff g1 good_trans[OF goodD(1)[OF g1] ff g2 g3]] .
  have "pool_inv P s3" by (rule good_inv_same[OF inv g f3(2,1)])
  moreover have "health_bad tr obj s = (Inr (), s3)" using Returns
    by (simp add: health_bad_def Let_def s1_def[symmetric] s2_def[symmetric] s3_def)
  ultimately show ?thesis using g by simp
qed

lemma health_one_spec:
  assumes ff: "fresh_factory P" and inv: "pool_inv P s"
  shows "\<exists>r s'. health_one h tr obj s = (r, s') \<and> pool_inv P s' \<and> good P s s'"
proof -
  note bk = pool_invD(1)[OF inv]
  from borrow_spec[OF inv, of obj] obtain b s1 where
    b: "pool_borrow obj s = (Inr b, s1)" "pool_inv P s1" "good P s s1"
      "b \<longrightarrow> obj \<in> set (using_objs s1)"
    by blast
  show ?thesis
  proof (cases b)
    case False
    then have "health_one h tr obj s = (Inr (), s1)" using b(1) by (simp add: health_one_def)
    then show ?thesis using b by simp
  next
    case True
    from health_ask_spec[OF b(2), of h obj] obtain hl s2 where
      a: "health_ask h obj s1 = (hl, s2)" "pool_inv P s2" "good P s1 s2"
        "using_objs s2 = using_objs s1"
      by blast
    have m2: "obj \<in> set (using_objs s2)" using b(4) True a(4) by simp
    from return_spec[OF a(2) ff, of obj] m2 obtain s3 where
      r: "pool_return obj s2 = (Inr (), s3)" "pool_inv P s3" "good P s2 s3"
        "avail s3 = set_add obj (avail s2)"
      by auto
    have g3: "good P s s3"
      using good_trans[OF bk ff b(3) good_trans[OF pool_invD(1)[OF b(2)] ff a(3) r(3)]] .
    show ?thesis
    proof (cases hl)
      case True
      then have "health_one h tr obj s = (Inr (), s3)" using b(1) \<open>b\<close> a(1) r(1)
        by (simp add: health_one_def)
      then show ?thesis using r(2) g3 by simp
    next
      case False
      have m3: "obj \<in> set (avail s3)" by (simp add: r(4))
      from health_bad_spec[OF ff r(2) m3, of tr] obtain r4 s4 where
        d: "health_bad tr obj s3 = (r4, s4)" "pool_inv P s4" "good P s3 s4" by blast
      have "health_one h tr obj s = (r4, s4)" using b(1) \<open>b\<close> a(1) r(1) False d(1)
        by (simp add: health_one_def)
      moreover have "good P s s4" by (rule good_trans[OF bk ff g3 d(3)])
      ultimately show ?thesis using d(2) by simp
    qed
  qed
qed

lemma health_loop_spec:
  assumes ff: "fresh_factory P"
  shows "pool_inv P s \<Longrightarrow> \<exists>r s'. health_loop h tr objs s = (r, s') \<and> pool_inv P s' \<and> good P s s'"
proof (induction objs arbitrary: s)
  case Nil
  then show ?case by (simp add: good_refl pool_invD)
next
  case (Cons obj objs)
  from health_one_spec[OF ff Cons.prems, of h tr obj] obtain r s1 where
    o: "health_one h tr obj s = (r, s1)" "pool_inv P s1" "good P s s1" by blast
  show ?case
  proof (cases r)
    case (Inl e)
    then show ?thesis using o by simp
  next
    case (Inr u)
    from Cons.IH[OF o(2)] obtain r' s' where
      l: "health_loop h tr objs s1 = (r', s')" "pool_inv P s'" "good P s1 s'" by blast
    have "good P s s'" by (rule good_trans[OF pool_invD(1)[OF Cons.prems] ff o(3) l(3)])
    then show ?thesis using Inr o(1) l(1,2) by simp
  qed
qed

lemma health_check_spec:
  assumes ff: "fresh_factory P" and inv: "pool_inv P s"
  shows "\<exists>r s'. pool_health_check P s = (r, s') \<and> pool_inv P s' \<and> good P s s'"
proof (cases "health P")
  case None
  then show ?thesis using inv by (simp add: pool_health_check_def good_refl pool_invD)
next
  case (Some h)
  note bk = pool_invD(1)[OF inv]
  define s1 where "s1 = s\<lparr>hc_rounds := hc_rounds s + 1\<rparr>"
  have g1: "good P s s1" unfolding s1_def by (rule counter_good[OF bk])
  have inv1: "pool_inv P s1" by (rule good_inv_same[OF inv g1]) (simp_all add: s1_def)
  from health_loop_spec[OF ff inv1, of h "tracer P" "avail s1"] obtain r s' where
    l: "health_loop h (tracer P) (avail s1) s1 = (r, s')" "pool_inv P s'" "good P s1 s'" by blast
  have "pool_health_check P s = (r, s')" using Some l(1)
    by (simp add: pool_health_check_def Let_def s1_def[symmetric])
  moreover have "good P s s'" by (rule good_trans[OF bk ff g1 l(3)])
  ultimately show ?thesis using l(2) by simp
qed

lemma hk_cycle_spec:
  assumes ff: "fresh_factory P" and inv: "pool_inv P s"
  shows "\<exists>r s'. hk_cycle P now s = (r, s') \<and> pool_inv P s' \<and> good P s s'"
proof -
  note bk = pool_invD(1)[OF inv]
  from hkRound_spec[OF ff inv, of now] obtain s1 where
    k: "pool_hkRound P now s = (Inr (), s1)" "pool_inv P s1" "good P s s1" by blast
  define c where "c = (if health P \<noteq> None then
                 (if health_freq P = 0 then (Inl ZeroDivisionError, s1)
                  else if hk_rounds s1 mod health_freq P = 0 then pool_health_check P s1
                  else (Inr (), s1))
               else (Inr (), s1))"
  have "\<exists>r s2. c = (r, s2) \<and> pool_inv P s2 \<and> good P s1 s2"
    using health_check_spec[OF ff k(2)] k(2)
    by (auto simp: c_def good_refl pool_invD)
  then obtain rc s2 where c: "c = (rc, s2)" "pool_inv P s2" "good P s1 s2" by blast
  have g2: "good P s s2" by (rule good_trans[OF bk ff k(3) c(3)])
  have e: "hk_cycle P now s = (case c of (Inl e, s2) \<Rightarrow> (Inl e, s2)
       | (Inr u, s2) \<Rightarrow> pool_fill P now (pool_empty P s2))"
    using k(1) by (simp add: hk_cycle_def c_def)
  show ?thesis
  proof (cases rc)
    case (Inl e')
    then show ?thesis using e c(1,2) g2 by simp
  next
    case (Inr u)
    define s3 where "s3 = pool_empty P s2"
    have g3: "good P s2 s3" unfolding s3_def by (rule empty_spec[OF pool_invD(1)[OF c(2)]])
    have inv3: "pool_inv P s3" by (rule good_inv_same[OF c(2) g3]) (simp_all add: s3_def empty_fields)
    from fill_spec[OF ff inv3, of now] obtain s4 where
      f: "pool_fill P now s3 = (Inr (), s4)" "pool_inv P s4" "good P s3 s4" by blast
    have "good P s s4"
      using good_trans[OF bk ff g2 good_trans[OF pool_invD(1)[OF c(2)] ff g3 f(3)]] .
    moreover have "hk_cycle P now s = (Inr (), s4)" using e c(1) Inr f(1) by (simp add: s3_def)
    ultimately show ?thesis using f(2) by simp
  qed
qed

lemma step_spec:
  assumes ff: "fresh_factory P" and inv: "pool_inv P s"
  shows "pool_inv P (step P op s) \<and> good P s (step P op s)"
proof (cases op)
  case (Get now tmo pick)
  then show ?thesis using get_spec[OF ff inv, of now tmo pick] by auto
next
  case (Ret now obj)
  then show ?thesis using ret_spec[OF ff inv, of now obj] by auto
next
  case (Borrow obj)
  then show ?thesis using borrow_spec[OF inv, of obj] by auto
next
  case (Return obj)
  then show ?thesis using return_spec[OF inv ff, of obj] by auto
next
  case (HkRound now)
  then show ?thesis using hkRound_spec[OF ff inv, of now] by auto
next
  case HealthCheck
  then show ?thesis using health_check_spec[OF ff inv] by auto
next
  case Empty
  have g: "good P s (pool_empty P s)" by (rule empty_spec[OF pool_invD(1)[OF inv]])
  have "pool_inv P (pool_empty P s)" by (rule good_inv_same[OF inv g]) (simp_all add: empty_fields)
  then show ?thesis using Empty g by simp
next
  case (Fill now)
  then show ?thesis using fill_spec[OF ff inv, of now] by auto
next
  case (HkCycle now)
  then show ?thesis using hk_cycle_spec[OF ff inv, of now] by auto
qed

lemma run_spec:
  assumes ff: "fresh_factory P"
  shows "pool_inv P s \<Longrightarrow> pool_inv P (run P ops s) \<and> good P s (run P ops s)"
proof (induction ops arbitrary: s)
  case Nil
  then show ?case by (simp add: run_def good_refl pool_invD)
next
  case (Cons op ops)
  from step_spec[OF ff Cons.prems, of op] have
    s: "pool_inv P (step P op s)" "good P s (step P op s)" by simp_all
  from Cons.IH[OF s(1)] have
    r: "pool_inv P (run P ops (step P op s))" "good P (step P op s) (run P ops (step P op s))"
    by simp_all
  have "good P s (run P ops (step P op s))"
    by (rule good_trans[OF pool_invD(1)[OF Cons.prems] ff s(2) r(2)])
  then show ?case using r(1) by (simp add: run_def)
qed

lemma fields_inv:
  assumes "0 \<le> max_size P"
  shows "pool_inv P (pool_fields P)"
  using assms
  by (simp add: pool_inv_def book_ok_def sets_ok_def counts_ok_def made_ok_def known_def
      sem_ok_def pool_fields_def)

lemma init_spec:
  assumes ff: "fresh_factory P" and ms: "0 \<le> max_size P"
  shows "fst (pool_init P now) = Inr () \<and> pool_inv P (snd (pool_init P now))"
  using fill_spec[OF ff fields_inv[OF ms], of now] ms by (auto simp: pool_init_def)

subsection \<open>Reachable states, and the concrete pool\<close>

lemma reach_inv:
  assumes ff: "fresh_factory P" and ms: "0 \<le> max_size P"
    and reach: "s = run P ops (snd (pool_init P t0))"
  shows "pool_inv P s"
  using run_spec[OF ff conjunct2[OF init_spec[OF ff ms, of t0]], of ops] reach by simp



lemma demo_fresh_upd:
  "fresh_factory (demo_params\<lparr>max_size := a, min_size := b\<rparr>)"
  "fresh_factory (demo_params\<lparr>max_size := a, min_size := b, max_use := c\<rparr>)"
  "fresh_factory (demo_params\<lparr>max_size := a, min_size := b, max_using_delay_kill := d\<rparr>)"
  "fresh_factory (demo_params\<lparr>max_size := a, min_size := b, max_avail_delay := d\<rparr>)"
  by (simp_all add: fresh_factory_def demo_params_def)

subsection \<open>Facts for the claims\<close>





lemma ret_noop:
  assumes "obj \<notin> set (using_objs s)"
  shows "pool_ret P now obj s = (Inr (), guarded_hook (retter P) Retter_exception obj s)"
  using assms by (simp add: pool_ret_def Let_def)


lemma in_use_bounded:
  assumes "fresh_factory P" and "0 < max_size P"
    and "s = run P ops (snd (pool_init P start))"
  shows "int (length (using_objs s)) \<le> max_size P"
proof -
  have ms: "0 \<le> max_size P" using assms(2) by simp
  have inv: "pool_inv P s" by (rule reach_inv[OF assms(1) ms assms(3)])
  note so = pool_invD(2)[OF inv]
  show ?thesis
  proof (cases "sem s")
    case None
    then show ?thesis using so assms(2) by (simp add: sem_ok_def)
  next
    case (Some b)
    from sem_okD(2,3)[OF so Some] show ?thesis by simp
  qed
qed

section \<open>The claims\<close>

text \<open>
  C10. A pool constructed with \<^verbatim>\<open>max_size = 0\<close> has no semaphore, at construction and
  after any sequence of calls. On such a pool \<^verbatim>\<open>get\<close> never raises \<^verbatim>\<open>TimeOut\<close> and never
  waits, and neither the \<^verbatim>\<open>timeout\<close> argument nor the configured timeout changes what it
  does: it takes an available object or tries to make one.
\<close>

theorem C10_unbounded_get_never_times_out:
  assumes "max_size P = 0"
  shows "fst (pool_get P now tmo pick (run P ops (snd (pool_init P start)))) \<notin> {Inl TimeOut, Inl Blocked} \<and>
         pool_get (P\<lparr>timeout := t\<rparr>) now tmo' pick (run P ops (snd (pool_init P start))) =
         pool_get P now tmo pick (run P ops (snd (pool_init P start)))"
proof -
  let ?s = "run P ops (snd (pool_init P start))"
  have n: "sem ?s = None" by (rule run_None) (rule init_None[OF assms])
  have "fst (pool_get P now tmo pick ?s) \<noteq> Inl TimeOut"
    using get_None_err[OF n, of P now tmo pick TimeOut] by auto
  moreover have "fst (pool_get P now tmo pick ?s) \<noteq> Inl Blocked"
    using get_None_err[OF n, of P now tmo pick Blocked] by auto
  ultimately show ?thesis using get_None_timeout_irrelevant[OF n] by simp
qed

theorem C10_witness:
  "max_size demo_params = 0 \<and>
   fst (pool_get demo_params 5 (Some 1) 0
          (run demo_params [Get 1 None 0, Get 2 (Some 3) 0] (snd (pool_init demo_params 0))))
     \<notin> {Inl TimeOut, Inl Blocked}"
  using C10_unbounded_get_never_times_out
          [of demo_params 5 "Some 1" 0 "[Get 1 None 0, Get 2 (Some 3) 0]" 0]
  by (simp add: demo_params_def)

text \<open>
  C1. The claim: with \<^verbatim>\<open>max_size > 0\<close> the number of live objects never exceeds
  \<^verbatim>\<open>max_size\<close>, also when \<^verbatim>\<open>min_size > max_size\<close>, because \<^verbatim>\<open>_fill\<close> takes a token.
  The code at \<^verbatim>\<open>Pool(fun, max_size=1, min_size=3)\<close>: \<^verbatim>\<open>_fill\<close> gives each token back as
  soon as the object is made, so the construction ends with three live objects, all
  available, and the semaphore full.
\<close>

theorem C1_refill_exceeds_max_size:
  "max_size (demo_params\<lparr>max_size := 1, min_size := 3\<rparr>) = 1 \<and>
   fst (pool_init (demo_params\<lparr>max_size := 1, min_size := 3\<rparr>) 0) = Inr () \<and>
   nobjs (demo_pool (demo_params\<lparr>max_size := 1, min_size := 3\<rparr>)) = 3 \<and>
   avail (demo_pool (demo_params\<lparr>max_size := 1, min_size := 3\<rparr>)) = [1, 2, 3] \<and>
   map_option sem_value (sem (demo_pool (demo_params\<lparr>max_size := 1, min_size := 3\<rparr>))) = Some 1"
  by code_simp

text \<open>
  C2. The claim: \<^verbatim>\<open>Pool.obj\<close> and \<^verbatim>\<open>Proxy._obj\<close> give the object back when the
  \<^verbatim>\<open>with\<close> block is left, also by an exception. The code on a pool with
  \<^verbatim>\<open>max_size = 1\<close> and a body that raises: the exception leaves the helper, the object is
  still in use (and still bound in the proxy), the token is not given back, and the next
  \<^verbatim>\<open>get\<close> with a timeout raises \<^verbatim>\<open>TimeOut\<close>. With a body that returns, the object is
  given back.
\<close>

theorem C2_scoped_helpers_keep_object_on_exception:
  "(case pool_obj (demo_params\<lparr>max_size := 1, min_size := 0\<rparr>) 1 (Some 1) 0 raising_body
           (demo_pool (demo_params\<lparr>max_size := 1, min_size := 0\<rparr>)) of
      (r, s) \<Rightarrow> r = Inl BodyError \<and> using_objs s = [1] \<and> avail s = [] \<and>
                map_option sem_value (sem s) = Some 0 \<and>
                fst (pool_get (demo_params\<lparr>max_size := 1, min_size := 0\<rparr>) 2 (Some 1) 0 s)
                  = Inl TimeOut) \<and>
   (case proxy_obj (demo_params\<lparr>max_size := 1, min_size := 0\<rparr>) 1 (Some 1) 0 raising_body
           (demo_proxy (demo_params\<lparr>max_size := 1, min_size := 0\<rparr>)) of
      (r, x) \<Rightarrow> r = Inl BodyError \<and> proxy_local x = Some 1 \<and>
                map_option using_objs (proxy_pool x) = Some [1] \<and>
                map_option avail (proxy_pool x) = Some []) \<and>
   (case pool_obj (demo_params\<lparr>max_size := 1, min_size := 0\<rparr>) 1 (Some 1) 0 quiet_body
           (demo_pool (demo_params\<lparr>max_size := 1, min_size := 0\<rparr>)) of
      (r, s) \<Rightarrow> r = Inr () \<and> using_objs s = [] \<and> avail s = [1] \<and>
                map_option sem_value (sem s) = Some 1)"
  by code_simp

text \<open>
  C6. The claim: an exception of a hook, the \<^verbatim>\<open>stats\<close> and \<^verbatim>\<open>tracer\<close> hooks included,
  never reaches the caller of a pool operation and never aborts the bookkeeping. The code:
  \<^verbatim>\<open>stats()\<close> calls the hook outside any \<^verbatim>\<open>try\<close>, so a \<^verbatim>\<open>stats\<close> hook or a \<^verbatim>\<open>tracer\<close>
  hook that raises makes \<^verbatim>\<open>stats()\<close> raise; and in the health check a \<^verbatim>\<open>tracer\<close> that raises
  on an unhealthy object ends the housekeeper's turn with that exception, before the object
  is removed and before anything is logged.
\<close>

theorem C6_describe_hook_exception_propagates:
  "(case pool_stats (demo_params\<lparr>stats := Some (\<lambda>obj. Raises)\<rparr>) 1
          (demo_pool (demo_params\<lparr>stats := Some (\<lambda>obj. Raises)\<rparr>)) of
      Inl e \<Rightarrow> e = HookError
    | Inr snap \<Rightarrow> False) \<and>
   (case pool_stats (demo_params\<lparr>tracer := Some (\<lambda>obj. Raises)\<rparr>) 1
          (demo_pool (demo_params\<lparr>tracer := Some (\<lambda>obj. Raises)\<rparr>)) of
      Inl e \<Rightarrow> e = HookError
    | Inr snap \<Rightarrow> False) \<and>
   avail (demo_pool (demo_params\<lparr>stats := Some (\<lambda>obj. Raises)\<rparr>)) = [1] \<and>
   (case hk_cycle
           (demo_params\<lparr>health := Some (\<lambda>obj. Returns False), tracer := Some (\<lambda>obj. Raises)\<rparr>) 1
           (demo_pool
              (demo_params\<lparr>health := Some (\<lambda>obj. Returns False), tracer := Some (\<lambda>obj. Raises)\<rparr>)) of
      (r, s) \<Rightarrow> r = Inl HookError \<and> avail s = [1] \<and> todel s = [] \<and> bad_health s = 0 \<and>
                logged s = [])"
  by code_simp






text \<open>
  C5. The claim: \<^verbatim>\<open>ret\<close> releases one token whatever the outcome, also when the object is
  not in use. The code returns before the release in that case: after two \<^verbatim>\<open>get\<close> and one
  \<^verbatim>\<open>ret\<close> on a pool with \<^verbatim>\<open>max_size = 2\<close> one token is free, and a second \<^verbatim>\<open>ret\<close> of the
  same object leaves one token free.
\<close>

theorem C5_double_release_keeps_token:
  "1 \<notin> set (using_objs (run (demo_params\<lparr>max_size := 2, min_size := 0\<rparr>)
                   [Get 0 None 0, Get 1 None 0, Ret 2 1]
                   (demo_pool (demo_params\<lparr>max_size := 2, min_size := 0\<rparr>)))) \<and>
   map_option sem_value (sem (run (demo_params\<lparr>max_size := 2, min_size := 0\<rparr>)
                   [Get 0 None 0, Get 1 None 0, Ret 2 1]
                   (demo_pool (demo_params\<lparr>max_size := 2, min_size := 0\<rparr>)))) = Some 1 \<and>
   fst (pool_ret (demo_params\<lparr>max_size := 2, min_size := 0\<rparr>) 3 1
          (run (demo_params\<lparr>max_size := 2, min_size := 0\<rparr>)
                   [Get 0 None 0, Get 1 None 0, Ret 2 1]
                   (demo_pool (demo_params\<lparr>max_size := 2, min_size := 0\<rparr>)))) = Inr () \<and>
   map_option sem_value (sem (snd (pool_ret (demo_params\<lparr>max_size := 2, min_size := 0\<rparr>) 3 1
          (run (demo_params\<lparr>max_size := 2, min_size := 0\<rparr>)
                   [Get 0 None 0, Get 1 None 0, Ret 2 1]
                   (demo_pool (demo_params\<lparr>max_size := 2, min_size := 0\<rparr>)))))) = Some 1"
  by code_simp

text \<open>
  C5, as the code has it: \<^verbatim>\<open>ret\<close> of an object that is not in use runs the \<^verbatim>\<open>retter\<close> hook
  and nothing else: no set, no counter and not the semaphore changes. \<^verbatim>\<open>ret\<close> of an object
  that is in use takes it out of the objects in use and releases exactly one token, whether
  the object is retired or goes back to the available objects.
\<close>

theorem C5_release_token_only_when_in_use:
  assumes "fresh_factory P" and "0 \<le> max_size P"
    and "s = run P ops (snd (pool_init P start))"
  shows "(obj \<notin> set (using_objs s) \<longrightarrow>
            pool_ret P now obj s = (Inr (), guarded_hook (retter P) Retter_exception obj s) \<and>
            sem (snd (pool_ret P now obj s)) = sem s \<and>
            avail (snd (pool_ret P now obj s)) = avail s \<and>
            using_objs (snd (pool_ret P now obj s)) = using_objs s \<and>
            todel (snd (pool_ret P now obj s)) = todel s \<and>
            uses_tab (snd (pool_ret P now obj s)) = uses_tab s \<and>
            nobjs (snd (pool_ret P now obj s)) = nobjs s) \<and>
         (obj \<in> set (using_objs s) \<longrightarrow>
            fst (pool_ret P now obj s) = Inr () \<and>
            using_objs (snd (pool_ret P now obj s)) = removeAll obj (using_objs s) \<and>
            sem (snd (pool_ret P now obj s))
              = map_option (\<lambda>b. b\<lparr>sem_value := sem_value b + 1\<rparr>) (sem s))"
proof (intro conjI impI)
  assume n: "obj \<notin> set (using_objs s)"
  note r = ret_noop[OF n, of P now]
  show "pool_ret P now obj s = (Inr (), guarded_hook (retter P) Retter_exception obj s)" by (rule r)
  show "sem (snd (pool_ret P now obj s)) = sem s" "avail (snd (pool_ret P now obj s)) = avail s"
    "using_objs (snd (pool_ret P now obj s)) = using_objs s"
    "todel (snd (pool_ret P now obj s)) = todel s"
    "uses_tab (snd (pool_ret P now obj s)) = uses_tab s"
    "nobjs (snd (pool_ret P now obj s)) = nobjs s"
    by (simp_all add: r)
next
  assume m: "obj \<in> set (using_objs s)"
  have inv: "pool_inv P s" by (rule reach_inv[OF assms])
  from ret_spec[OF assms(1) inv, of now obj] m obtain s' where
    r: "pool_ret P now obj s = (Inr (), s')" "using_objs s' = removeAll obj (using_objs s)"
      "case sem s of None \<Rightarrow> sem s' = None
         | Some b \<Rightarrow> sem s' = Some (b\<lparr>sem_value := sem_value b + 1\<rparr>)"
    by auto
  show "fst (pool_ret P now obj s) = Inr ()" by (simp add: r(1))
  show "using_objs (snd (pool_ret P now obj s)) = removeAll obj (using_objs s)"
    by (simp add: r(1,2))
  show "sem (snd (pool_ret P now obj s)) = map_option (\<lambda>b. b\<lparr>sem_value := sem_value b + 1\<rparr>) (sem s)"
    using r(3) by (simp add: r(1) split: option.splits)
qed

theorem C5_witness:
  "fresh_factory (demo_params\<lparr>max_size := 2, min_size := 0\<rparr>) \<and>
   0 \<le> max_size (demo_params\<lparr>max_size := 2, min_size := 0\<rparr>) \<and>
   2 \<in> set (using_objs (run (demo_params\<lparr>max_size := 2, min_size := 0\<rparr>)
                   [Get 0 None 0, Get 1 None 0, Ret 2 1]
                   (snd (pool_init (demo_params\<lparr>max_size := 2, min_size := 0\<rparr>) 0)))) \<and>
   1 \<notin> set (using_objs (run (demo_params\<lparr>max_size := 2, min_size := 0\<rparr>)
                   [Get 0 None 0, Get 1 None 0, Ret 2 1]
                   (snd (pool_init (demo_params\<lparr>max_size := 2, min_size := 0\<rparr>) 0)))) \<and>
   sem (snd (pool_ret (demo_params\<lparr>max_size := 2, min_size := 0\<rparr>) 3 1
               (run (demo_params\<lparr>max_size := 2, min_size := 0\<rparr>)
                   [Get 0 None 0, Get 1 None 0, Ret 2 1]
                   (snd (pool_init (demo_params\<lparr>max_size := 2, min_size := 0\<rparr>) 0)))))
     = sem (run (demo_params\<lparr>max_size := 2, min_size := 0\<rparr>)
                   [Get 0 None 0, Get 1 None 0, Ret 2 1]
                   (snd (pool_init (demo_params\<lparr>max_size := 2, min_size := 0\<rparr>) 0))) \<and>
   sem (snd (pool_ret (demo_params\<lparr>max_size := 2, min_size := 0\<rparr>) 3 2
               (run (demo_params\<lparr>max_size := 2, min_size := 0\<rparr>)
                   [Get 0 None 0, Get 1 None 0, Ret 2 1]
                   (snd (pool_init (demo_params\<lparr>max_size := 2, min_size := 0\<rparr>) 0)))))
     = map_option (\<lambda>b. b\<lparr>sem_value := sem_value b + 1\<rparr>)
         (sem (run (demo_params\<lparr>max_size := 2, min_size := 0\<rparr>)
                   [Get 0 None 0, Get 1 None 0, Ret 2 1]
                   (snd (pool_init (demo_params\<lparr>max_size := 2, min_size := 0\<rparr>) 0))))"
proof -
  let ?P = "demo_params\<lparr>max_size := 2, min_size := 0\<rparr>"
  let ?s = "run ?P [Get 0 None 0, Get 1 None 0, Ret 2 1] (snd (pool_init ?P 0))"
  have ms: "0 \<le> max_size ?P" by (simp add: demo_params_def)
  have u: "2 \<in> set (using_objs ?s)" "1 \<notin> set (using_objs ?s)" by code_simp+
  note a = C5_release_token_only_when_in_use[OF demo_fresh_upd(1) ms refl,
      where ops="[Get 0 None 0, Get 1 None 0, Ret 2 1]" and start=0 and obj=1 and now=3]
  note b = C5_release_token_only_when_in_use[OF demo_fresh_upd(1) ms refl,
      where ops="[Get 0 None 0, Get 1 None 0, Ret 2 1]" and start=0 and obj=2 and now=3]
  show ?thesis using a b u demo_fresh_upd(1)[where a=2 and b=0] ms by simp
qed








end
